theory Spec2Isabelle
  imports Complex_Main "HOL-Library.Multiset" "HOL-Library.Sublist"
begin

section \<open>Points\<close>

text \<open>
  The source's \<open>struct point { float x, y; }\<close>. Coordinates are modelled as exact reals
  (the specification's data model: finite real numbers); rounding is not modelled.
  The fields are called \<open>px\<close> and \<open>py\<close> so that \<open>x\<close> and \<open>y\<close> stay usable as variables.
\<close>

record point =
  px :: real
  py :: real

definition cross :: "point \<Rightarrow> point \<Rightarrow> real" where
  "cross u v = px u * py v - py u * px v"

text \<open>\<open>operator<\<close>, \<open>operator>\<close> and \<open>operator==\<close> compare \<open>std::tie(x, y)\<close>
  lexicographically.\<close>

definition pt_less :: "point \<Rightarrow> point \<Rightarrow> bool" where
  "pt_less p q = (px p < px q \<or> (\<not> px q < px p \<and> py p < py q))"

definition pt_greater :: "point \<Rightarrow> point \<Rightarrow> bool" where
  "pt_greater p q = pt_less q p"

definition pt_eq :: "point \<Rightarrow> point \<Rightarrow> bool" where
  "pt_eq p q = (px p = px q \<and> py p = py q)"

definition pt_minus :: "point \<Rightarrow> point \<Rightarrow> point" where
  "pt_minus p q = \<lparr>px = px p - px q, py = py p - py q\<rparr>"

definition pt_plus :: "point \<Rightarrow> point \<Rightarrow> point" where
  "pt_plus p q = \<lparr>px = px p + px q, py = py p + py q\<rparr>"

section \<open>Failures and the point buffer\<close>

text \<open>
  The buffer \<open>ps\<close> is a list whose length is the allocated capacity; pointers into it are
  indices. An access outside the allocation, or a library call on an invalid range, is
  \<open>OutOfRange\<close>; a failed \<open>ASSERT\<close> halts with \<open>AssertFailed\<close> (the macro's header is not
  part of the sources; the specification describes it as a fail-fast check).
\<close>

datatype error = OutOfRange | AssertFailed

definition swap_pts :: "point list \<Rightarrow> nat \<Rightarrow> nat \<Rightarrow> point list" where
  "swap_pts ps i j = ps[i := ps ! j, j := ps ! i]"

definition range_of :: "point list \<Rightarrow> nat \<Rightarrow> nat \<Rightarrow> point list" where
  "range_of ps first last' = take (last' - first) (drop first ps)"

section \<open>Library algorithms\<close>

text \<open>\<open>std::swap_ranges(first1, last1, first2)\<close>: swaps element by element, front to back,
  and returns the end of the second range.\<close>

function swap_ranges :: "point list \<Rightarrow> nat \<Rightarrow> nat \<Rightarrow> nat \<Rightarrow> error + point list \<times> nat" where
  "swap_ranges ps first1 last1 first2 =
     (if first1 = last1 then Inr (ps, first2)
      else if length ps \<le> first1 \<or> length ps \<le> first2 then Inl OutOfRange
      else swap_ranges (swap_pts ps first1 first2) (Suc first1) last1 (Suc first2))"
  by pat_completeness auto
termination
  by (relation "measure (\<lambda>(ps, first1, last1, first2). length ps - first1)")
     (auto simp: swap_pts_def)

declare swap_ranges.simps [simp del]

text \<open>\<open>std::min_element\<close>: the first smallest element; \<open>last\<close> on an empty range.\<close>

function min_loop :: "point list \<Rightarrow> nat \<Rightarrow> nat \<Rightarrow> nat \<Rightarrow> error + nat" where
  "min_loop ps last' it smallest =
     (if it = last' then Inr smallest
      else if length ps \<le> it \<or> length ps \<le> smallest then Inl OutOfRange
      else min_loop ps last' (Suc it) (if pt_less (ps ! it) (ps ! smallest) then it else smallest))"
  by pat_completeness auto
termination
  by (relation "measure (\<lambda>(ps, last', it, smallest). length ps - it)") auto

declare min_loop.simps [simp del]

definition min_element :: "point list \<Rightarrow> nat \<Rightarrow> nat \<Rightarrow> error + nat" where
  "min_element ps first last' =
     (if first = last' then Inr last' else min_loop ps last' (Suc first) first)"

text \<open>\<open>std::minmax_element\<close>: the first smallest and the last largest element;
  \<open>(first, first)\<close> on an empty range.\<close>

function minmax_loop :: "point list \<Rightarrow> nat \<Rightarrow> nat \<Rightarrow> nat \<Rightarrow> nat \<Rightarrow> error + nat \<times> nat" where
  "minmax_loop ps last' it mn mx =
     (if it = last' then Inr (mn, mx)
      else if length ps \<le> it \<or> length ps \<le> mn \<or> length ps \<le> mx then Inl OutOfRange
      else minmax_loop ps last' (Suc it)
             (if pt_less (ps ! it) (ps ! mn) then it else mn)
             (if \<not> pt_less (ps ! it) (ps ! mx) then it else mx))"
  by pat_completeness auto
termination
  by (relation "measure (\<lambda>(ps, last', it, mn, mx). length ps - it)") auto

declare minmax_loop.simps [simp del]

definition minmax_element :: "point list \<Rightarrow> nat \<Rightarrow> nat \<Rightarrow> error + nat \<times> nat" where
  "minmax_element ps first last' =
     (if first = last' then Inr (first, first) else minmax_loop ps last' (Suc first) first first)"

text \<open>
  \<open>std::partition\<close> leaves the order inside the two groups unspecified; the model keeps the
  original order in both. Its only caller sorts both groups afterwards.
\<close>

definition partition_range ::
  "point list \<Rightarrow> nat \<Rightarrow> nat \<Rightarrow> (point \<Rightarrow> bool) \<Rightarrow> error + point list \<times> nat" where
  "partition_range ps first last' pred =
     (if first \<le> last' \<and> last' \<le> length ps then
        let seg = range_of ps first last' in
        Inr (take first ps @ filter pred seg @ filter (\<lambda>p. \<not> pred p) seg @ drop last' ps,
             first + length (filter pred seg))
      else Inl OutOfRange)"

text \<open>\<open>std::sort\<close> with a comparator, modelled by insertion sort.\<close>

fun insort_by :: "('a \<Rightarrow> 'a \<Rightarrow> bool) \<Rightarrow> 'a \<Rightarrow> 'a list \<Rightarrow> 'a list" where
  "insort_by lt a [] = [a]"
| "insort_by lt a (b # bs) = (if lt b a then b # insort_by lt a bs else a # b # bs)"

definition sort_by :: "('a \<Rightarrow> 'a \<Rightarrow> bool) \<Rightarrow> 'a list \<Rightarrow> 'a list" where
  "sort_by lt xs = foldr (insort_by lt) xs []"

definition sort_range ::
  "point list \<Rightarrow> nat \<Rightarrow> nat \<Rightarrow> (point \<Rightarrow> point \<Rightarrow> bool) \<Rightarrow> error + point list" where
  "sort_range ps first last' lt =
     (if first \<le> last' \<and> last' \<le> length ps then
        Inr (take first ps @ sort_by lt (range_of ps first last') @ drop last' ps)
      else Inl OutOfRange)"

text \<open>\<open>std::transform\<close> of a range onto itself.\<close>

definition transform_range ::
  "point list \<Rightarrow> nat \<Rightarrow> nat \<Rightarrow> (point \<Rightarrow> point) \<Rightarrow> error + point list" where
  "transform_range ps first last' f =
     (if first \<le> last' \<and> last' \<le> length ps then
        Inr (take first ps @ map f (range_of ps first last') @ drop last' ps)
      else Inl OutOfRange)"

text \<open>\<open>std::copy(src, src + n, dst)\<close>.\<close>

definition copy_range :: "point list \<Rightarrow> nat \<Rightarrow> point list \<Rightarrow> error + point list" where
  "copy_range src n dst =
     (if n \<le> length src \<and> n \<le> length dst then Inr (take n src @ drop n dst)
      else Inl OutOfRange)"

section \<open>The partition utility\<close>

function hsp_loop ::
  "(point \<Rightarrow> bool) \<Rightarrow> nat \<Rightarrow> point list \<Rightarrow> nat \<Rightarrow> nat \<Rightarrow> error + point list \<times> nat" where
  "hsp_loop pred last' ps pivot it =
     (if it = last' then Inr (ps, pivot)
      else if length ps \<le> it then Inl OutOfRange
      else if pred (ps ! it) then
        (if length ps \<le> pivot then Inl OutOfRange
         else hsp_loop pred last' (swap_pts ps it pivot) (Suc pivot) (Suc it))
      else hsp_loop pred last' ps pivot (Suc it))"
  by pat_completeness auto
termination
  by (relation "measure (\<lambda>(pred, last', ps, pivot, it). length ps - it)")
     (auto simp: swap_pts_def)

declare hsp_loop.simps [simp del]

definition half_stable_partition ::
  "point list \<Rightarrow> nat \<Rightarrow> nat \<Rightarrow> (point \<Rightarrow> bool) \<Rightarrow> error + point list \<times> nat" where
  "half_stable_partition ps first last' pred = hsp_loop pred last' ps first first"


lemma hsp_loop_bounds:
  "hsp_loop pred last' ps pivot it = Inr (ps', p) \<Longrightarrow> pivot \<le> it \<Longrightarrow>
     it \<le> last' \<and> pivot \<le> p \<and> p + it \<le> last' + pivot \<and> length ps' = length ps"
proof (induction pred last' ps pivot it rule: hsp_loop.induct)
  case (1 pred last' ps pivot it)
  show ?case
  proof (cases "it = last'")
    case True
    with "1.prems" show ?thesis by (subst (asm) hsp_loop.simps) simp
  next
    case False
    with "1.prems" have lt: "it < length ps"
      by (subst (asm) hsp_loop.simps) (simp split: if_splits)
    show ?thesis
    proof (cases "pred (ps ! it)")
      case True
      with False lt "1.prems" have
        call: "hsp_loop pred last' (swap_pts ps it pivot) (Suc pivot) (Suc it) = Inr (ps', p)"
        by (subst (asm) hsp_loop.simps) (simp split: if_splits)
      from "1.IH"(1)[OF False _ True _ call] lt "1.prems"(2)
      show ?thesis by (simp add: swap_pts_def)
    next
      case nopred: False
      with False lt "1.prems" have
        call: "hsp_loop pred last' ps pivot (Suc it) = Inr (ps', p)"
        by (subst (asm) hsp_loop.simps) (simp split: if_splits)
      from "1.IH"(2)[OF False _ nopred call] lt "1.prems"(2)
      show ?thesis by simp
    qed
  qed
qed

section \<open>QuickHull\<close>

text \<open>
  The farthest-point search of \<open>findHull\<close>. In the source \<open>far\<close> starts uninitialised;
  the loop body runs at least once and its first iteration assigns it (the asserted
  \<open>cur_dist \<ge> 0\<close> exceeds the initial \<open>dist = -1\<close>), so the starting value passed by
  \<open>findHull\<close> is never read.
\<close>

function far_loop ::
  "point list \<Rightarrow> point \<Rightarrow> point \<Rightarrow> nat \<Rightarrow> nat \<Rightarrow> real \<Rightarrow> nat \<Rightarrow> error + nat" where
  "far_loop ps d u last' it dist' far =
     (if it = last' then Inr far
      else if length ps \<le> it then Inl OutOfRange
      else
        let cur_dist = cross d (pt_minus u (ps ! it)) in
        if \<not> 0 \<le> cur_dist then Inl AssertFailed
        else if dist' < cur_dist then far_loop ps d u last' (Suc it) cur_dist it
        else far_loop ps d u last' (Suc it) dist' far)"
  by pat_completeness auto
termination
  by (relation "measure (\<lambda>(ps, d, u, last', it, dist', far). length ps - it)") auto

declare far_loop.simps [simp del]

lemma far_loop_bounds:
  "far_loop ps d u last' it dist' far0 = Inr far \<Longrightarrow>
     it \<le> last' \<and> (far = far0 \<or> (it \<le> far \<and> far < last'))"
proof (induction ps d u last' it dist' far0 rule: far_loop.induct)
  case (1 ps d u last' it dist' far0)
  show ?case
  proof (cases "it = last'")
    case True
    with "1.prems" show ?thesis by (subst (asm) far_loop.simps) simp
  next
    case False
    with "1.prems" have lt: "it < length ps"
      by (subst (asm) far_loop.simps) (simp split: if_splits)
    define cd where "cd = cross d (pt_minus u (ps ! it))"
    from False lt "1.prems" have nn: "0 \<le> cd"
      by (subst (asm) far_loop.simps) (simp add: cd_def Let_def split: if_splits)
    show ?thesis
    proof (cases "dist' < cd")
      case True
      with False lt nn "1.prems" have call: "far_loop ps d u last' (Suc it) cd it = Inr far"
        by (subst (asm) far_loop.simps) (simp add: cd_def Let_def split: if_splits)
      from "1.IH"(1)[OF False _ cd_def _ _ call] lt nn True
      show ?thesis by (auto simp: cd_def)
    next
      case nolt: False
      with False lt nn "1.prems" have call: "far_loop ps d u last' (Suc it) dist' far0 = Inr far"
        by (subst (asm) far_loop.simps) (simp add: cd_def Let_def split: if_splits)
      from "1.IH"(2)[OF False _ cd_def _ _ call] lt nn nolt
      show ?thesis by (auto simp: cd_def)
    qed
  qed
qed

lemma far_loop_first:
  assumes "far_loop ps d u last' it dist' far0 = Inr far" "dist' < 0" "it \<noteq> last'"
  shows "it \<le> far \<and> far < last'"
proof -
  from assms have lt: "it < length ps"
    by (subst (asm) far_loop.simps) (simp split: if_splits)
  define cd where "cd = cross d (pt_minus u (ps ! it))"
  from assms lt have nn: "0 \<le> cd"
    by (subst (asm) far_loop.simps) (simp add: cd_def Let_def split: if_splits)
  with assms lt have call: "far_loop ps d u last' (Suc it) cd it = Inr far"
    by (subst (asm) far_loop.simps) (simp add: cd_def Let_def split: if_splits)
  from far_loop_bounds[OF call] show ?thesis by auto
qed

text \<open>The lambda \<open>isOuterior\<close> of \<open>findHull\<close>, with its captures \<open>[uf, vf, far_p]\<close>.\<close>

definition isOuterior :: "point \<Rightarrow> point \<Rightarrow> point \<Rightarrow> point \<Rightarrow> bool" where
  "isOuterior uf vf far_p p =
     (let pf = pt_minus p far_p in 0 < cross pf vf \<or> 0 < cross uf pf)"

function findHull ::
  "point list \<Rightarrow> nat \<Rightarrow> nat \<Rightarrow> point \<Rightarrow> point \<Rightarrow> error + point list \<times> nat" where
  "findHull ps first last' u v =
     (if length ps \<le> first then Inl OutOfRange
      else if \<not> pt_eq (ps ! first) u then Inl AssertFailed
      else if first + 1 = last' then Inr (ps, last')
      else
        case far_loop ps (pt_minus v u) u last' (first + 1) (- 1) first of
          Inl e \<Rightarrow> Inl e
        | Inr far \<Rightarrow>
            if length ps \<le> far then Inl OutOfRange
            else
              let far_p = ps ! far;
                  uf = pt_minus u far_p;
                  vf = pt_minus v far_p
              in
              (case half_stable_partition ps (first + 1) far (isOuterior uf vf far_p) of
                Inl e \<Rightarrow> Inl e
              | Inr (ps1, pivot) \<Rightarrow>
              (case findHull ps1 first pivot u far_p of
                Inl e \<Rightarrow> Inl e
              | Inr (ps2, left_boundary) \<Rightarrow>
              (case half_stable_partition ps2 (far + 1) last' (isOuterior uf vf far_p) of
                Inl e \<Rightarrow> Inl e
              | Inr (ps3, pivot') \<Rightarrow>
              (case findHull ps3 far pivot' far_p v of
                Inl e \<Rightarrow> Inl e
              | Inr (ps4, right_boundary) \<Rightarrow>
              swap_ranges ps4 far right_boundary left_boundary)))))"
  by pat_completeness auto
termination
proof (relation "measure (\<lambda>(ps, first, last', u, v). last' - first)", goal_cases)
  case 1
  show ?case by simp
next
  case (2 ps first last' u v far far_p uf vf res ps1 pivot)
  from far_loop_first[OF 2(4)] 2(3) have "first + 1 \<le> far" "far < last'" by auto
  moreover from 2 have
    "hsp_loop (isOuterior uf vf far_p) far ps (first + 1) (first + 1) = Inr (ps1, pivot)"
    by (simp add: half_stable_partition_def)
  from hsp_loop_bounds[OF this] have "pivot \<le> far" by simp
  ultimately show ?case by simp
next
  case (3 ps first last' u v far far_p uf vf res ps1 pivot res2 ps2 lb res3 ps3 pivot')
  from far_loop_first[OF 3(4)] 3(3) have "first + 1 \<le> far" "far < last'" by auto
  moreover from 3 have
    "hsp_loop (isOuterior uf vf far_p) last' ps2 (far + 1) (far + 1) = Inr (ps3, pivot')"
    by (simp add: half_stable_partition_def)
  from hsp_loop_bounds[OF this] have "pivot' \<le> last'" by simp
  ultimately show ?case by simp
qed

declare findHull.simps [simp del]


text \<open>
  \<open>quickHull\<close> is given in two parts. \<open>quickHull_arcs\<close> is the body up to and including the
  two recursive \<open>findHull\<close> calls (source lines 190 to 206); it returns the buffer together
  with the locals \<open>pivot\<close>, \<open>left\<close>, \<open>right\<close>, \<open>left_boundary\<close> and \<open>right_boundary\<close>.
  \<open>quickHull\<close> continues with the edge case and the final \<open>std::swap_ranges\<close>.
\<close>

definition quickHull_arcs ::
  "point list \<Rightarrow> nat \<Rightarrow> nat \<Rightarrow> error + point list \<times> nat \<times> point \<times> point \<times> nat \<times> nat" where
  "quickHull_arcs ps first last' =
     (case minmax_element ps first last' of
        Inl e \<Rightarrow> Inl e
      | Inr (mn, mx) \<Rightarrow>
        if length ps \<le> mn \<or> length ps \<le> mx then Inl OutOfRange
        else
          let left = ps ! mn; right = ps ! mx; v = pt_minus left right in
          (case partition_range ps first last'
                  (\<lambda>p. if pt_eq p right then True else 0 < cross (pt_minus p right) v) of
             Inl e \<Rightarrow> Inl e
           | Inr (ps1, pivot) \<Rightarrow>
          (case sort_range ps1 first pivot pt_greater of
             Inl e \<Rightarrow> Inl e
           | Inr ps2 \<Rightarrow>
          (case sort_range ps2 pivot last' pt_less of
             Inl e \<Rightarrow> Inl e
           | Inr ps3 \<Rightarrow>
             if length ps3 \<le> first \<or> length ps3 \<le> pivot then Inl OutOfRange
             else if \<not> pt_eq (ps3 ! first) right then Inl AssertFailed
             else if \<not> pt_eq (ps3 ! pivot) left then Inl AssertFailed
             else
          (case findHull ps3 first pivot right left of
             Inl e \<Rightarrow> Inl e
           | Inr (ps4, left_boundary) \<Rightarrow>
          (case findHull ps4 pivot last' left right of
             Inl e \<Rightarrow> Inl e
           | Inr (ps5, right_boundary) \<Rightarrow>
               Inr (ps5, pivot, left, right, left_boundary, right_boundary)))))))"

definition quickHull :: "point list \<Rightarrow> nat \<Rightarrow> nat \<Rightarrow> error + point list \<times> nat" where
  "quickHull ps first last' =
     (case quickHull_arcs ps first last' of
        Inl e \<Rightarrow> Inl e
      | Inr (ps5, pivot, left, right, left_boundary, right_boundary) \<Rightarrow>
          (case (if pivot + 1 \<noteq> last' then
                   if length ps5 \<le> pivot + 1 then Inl OutOfRange
                   else if cross (pt_minus right left) (pt_minus (ps5 ! (pivot + 1)) left) = 0
                   then (if pivot + 2 = right_boundary then Inr (right_boundary - 1)
                         else Inl AssertFailed)
                   else Inr right_boundary
                 else Inr right_boundary) of
             Inl e \<Rightarrow> Inl e
           | Inr right_boundary' \<Rightarrow>
          (case swap_ranges ps5 pivot right_boundary' left_boundary of
             Inl e \<Rightarrow> Inl e
           | Inr (ps6, boundary) \<Rightarrow> Inr (ps6, boundary - first))))"

section \<open>Graham scan\<close>

text \<open>The comparator of the polar-angle sort.\<close>

definition angle_less :: "point \<Rightarrow> point \<Rightarrow> bool" where
  "angle_less u v =
     (let c = cross u v in
      if c \<noteq> 0 then 0 < c
      else if px u \<noteq> px v then px u < px v
      else py u < py v)"

text \<open>The inner \<open>while (i < n - 1)\<close> loop of the compaction: it runs to the last point of
  the run of points collinear with the origin that starts at \<open>i\<close>.\<close>

function skip_run :: "point list \<Rightarrow> nat \<Rightarrow> nat \<Rightarrow> point \<Rightarrow> error + nat \<times> point" where
  "skip_run ps n i u =
     (if i < n - 1 then
        if length ps \<le> i + 1 then Inl OutOfRange
        else
          let v = ps ! (i + 1) in
          if cross u v \<noteq> 0 then Inr (i, u)
          else skip_run ps n (i + 1) v
      else Inr (i, u))"
  by pat_completeness auto
termination
  by (relation "measure (\<lambda>(ps, n, i, u). n - i)") auto

declare skip_run.simps [simp del]

lemma skip_run_bounds: "skip_run ps n i u = Inr (i', u') \<Longrightarrow> i \<le> i'"
proof (induction ps n i u rule: skip_run.induct)
  case (1 ps n i u)
  show ?case
  proof (cases "i < n - 1 \<and> cross u (ps ! (i + 1)) = 0")
    case True
    with "1.prems" have lt: "i + 1 < length ps"
      by (subst (asm) skip_run.simps) (simp split: if_splits)
    with True "1.prems" have "skip_run ps n (i + 1) (ps ! (i + 1)) = Inr (i', u')"
      by (subst (asm) skip_run.simps) (simp add: Let_def split: if_splits)
    with "1.IH"[of "ps ! (i + 1)"] True lt show ?thesis by simp
  next
    case False
    with "1.prems" show ?thesis
      by (subst (asm) skip_run.simps) (auto simp: Let_def split: if_splits)
  qed
qed

text \<open>The compaction loop \<open>for (int i = 1; i < n; ++i)\<close> with its write \<open>ps[m++] = u\<close>.\<close>

function compact_loop :: "point list \<Rightarrow> nat \<Rightarrow> nat \<Rightarrow> nat \<Rightarrow> error + point list \<times> nat" where
  "compact_loop ps n i m =
     (if i < n then
        if length ps \<le> i then Inl OutOfRange
        else
          (case skip_run ps n i (ps ! i) of
             Inl e \<Rightarrow> Inl e
           | Inr (i', u) \<Rightarrow>
               if length ps \<le> m then Inl OutOfRange
               else compact_loop (ps[m := u]) n (i' + 1) (m + 1))
      else Inr (ps, m))"
  by pat_completeness auto
termination
proof (relation "measure (\<lambda>(ps, n, i, m). n - i)", goal_cases)
  case 1
  show ?case by simp
next
  case (2 ps n i m res i' u)
  then have "skip_run ps n i (ps ! i) = Inr (i', u)" by simp
  from skip_run_bounds[OF this] 2(1) show ?case by simp
qed

declare compact_loop.simps [simp del]

text \<open>
  The pop loop of the sweep. The stack size \<open>s\<close> is an \<open>int\<close> in the source; after
  \<open>--s\<close> has brought it to 0 the read \<open>ps[s - 1]\<close> is \<open>ps[-1]\<close>, outside the buffer.
\<close>

function pop_loop ::
  "point list \<Rightarrow> point \<Rightarrow> nat \<Rightarrow> point \<Rightarrow> point \<Rightarrow> error + nat \<times> point \<times> point" where
  "pop_loop ps cur s p v =
     (if 0 < s \<and> 0 \<le> cross (pt_minus cur p) v then
        let s' = s - 1 in
        if s' = 0 \<or> length ps \<le> s' then Inl OutOfRange
        else
          let p' = ps ! (s' - 1); v' = pt_minus (ps ! s') p' in
          pop_loop ps cur s' p' v'
      else Inr (s, p, v))"
  by pat_completeness auto
termination
  by (relation "measure (\<lambda>(ps, cur, s, p, v). s)") auto

declare pop_loop.simps [simp del]

function sweep_loop ::
  "point list \<Rightarrow> nat \<Rightarrow> nat \<Rightarrow> nat \<Rightarrow> point \<Rightarrow> point \<Rightarrow> error + point list \<times> nat" where
  "sweep_loop ps m i s p v =
     (if i < m then
        if length ps \<le> i then Inl OutOfRange
        else
          let cur = ps ! i in
          (case pop_loop ps cur s p v of
             Inl e \<Rightarrow> Inl e
           | Inr (s1, p1, v1) \<Rightarrow>
               let s2 = s1 + 1 in
               if length ps \<le> s2 then Inl OutOfRange
               else
                 let ps' = swap_pts ps i s2;
                     p2 = pt_plus p1 v1;
                     v2 = pt_minus cur p2
                 in sweep_loop ps' m (i + 1) s2 p2 v2)
      else Inr (ps, s))"
  by pat_completeness auto
termination
  by (relation "measure (\<lambda>(ps, m, i, s, p, v). m - i)") auto

declare sweep_loop.simps [simp del]

definition grahamScan :: "point list \<Rightarrow> nat \<Rightarrow> error + point list \<times> nat" where
  "grahamScan ps n =
     (case min_element ps 0 n of
        Inl e \<Rightarrow> Inl e
      | Inr min_it \<Rightarrow>
        if length ps \<le> min_it \<or> length ps \<le> 0 then Inl OutOfRange
        else
          let mn = ps ! min_it; ps1 = swap_pts ps min_it 0 in
          (case transform_range ps1 0 n (\<lambda>p. pt_minus p mn) of
             Inl e \<Rightarrow> Inl e
           | Inr ps2 \<Rightarrow>
          (case sort_range ps2 1 n angle_less of
             Inl e \<Rightarrow> Inl e
           | Inr ps3 \<Rightarrow>
          (case compact_loop ps3 n 1 1 of
             Inl e \<Rightarrow> Inl e
           | Inr (ps4, m) \<Rightarrow>
             if length ps4 \<le> 1 then Inl OutOfRange
             else
               let p = ps4 ! 0; v = pt_minus (ps4 ! 1) p in
          (case sweep_loop ps4 m 2 1 p v of
             Inl e \<Rightarrow> Inl e
           | Inr (ps5, s) \<Rightarrow>
          (case transform_range ps5 0 n (\<lambda>p. pt_plus p mn) of
             Inl e \<Rightarrow> Inl e
           | Inr ps6 \<Rightarrow> Inr (ps6, s + 1)))))))"

section \<open>The orchestrator\<close>

text \<open>
  \<open>calculate(n)\<close>: the random generator is external, so the points it produces are the
  parameter \<open>gen\<close> (\<open>gen i\<close> is the \<open>i\<close>-th point drawn). Timing, logging and the upload
  to the rendering buffer are left out. The result is the final \<open>ps\<close> and the hull count.
\<close>

function fill_loop ::
  "(nat \<Rightarrow> point) \<Rightarrow> nat \<Rightarrow> nat \<Rightarrow> point list \<Rightarrow> point list \<Rightarrow> error + point list \<times> point list" where
  "fill_loop gen n i ps buffer =
     (if i < n then
        if length ps \<le> i \<or> length buffer \<le> i then Inl OutOfRange
        else fill_loop gen n (i + 1) (ps[i := gen i]) (buffer[i := gen i])
      else Inr (ps, buffer))"
  by pat_completeness auto
termination
  by (relation "measure (\<lambda>(gen, n, i, ps, buffer). n - i)") auto

declare fill_loop.simps [simp del]

definition calculate ::
  "point list \<Rightarrow> point list \<Rightarrow> (nat \<Rightarrow> point) \<Rightarrow> nat \<Rightarrow> error + point list \<times> nat" where
  "calculate ps buffer gen n =
     (case fill_loop gen n 0 ps buffer of
        Inl e \<Rightarrow> Inl e
      | Inr (ps1, buffer1) \<Rightarrow>
     (case grahamScan ps1 n of
        Inl e \<Rightarrow> Inl e
      | Inr (ps2, graham_count) \<Rightarrow>
     (case copy_range buffer1 n ps2 of
        Inl e \<Rightarrow> Inl e
      | Inr ps3 \<Rightarrow> quickHull ps3 0 n)))"

section \<open>The partition utility is a half-stable partition\<close>


lemma swap_pts_same [simp]: "swap_pts ps i i = ps"
  by (simp add: swap_pts_def)

lemma length_swap_pts [simp]: "length (swap_pts ps i j) = length ps"
  by (simp add: swap_pts_def)

lemma swap_pts_append:
  "swap_pts (xs @ a # ys @ b # zs) (Suc (length xs + length ys)) (length xs) = xs @ b # ys @ a # zs"
  by (simp add: swap_pts_def list_update_append nth_append)

lemma hsp_loop_spec:
  assumes "\<forall>r\<in>set R. \<not> pred r"
  shows "\<exists>R'. hsp_loop pred (length A + length K + length R + length U) (A @ K @ R @ U @ Z)
                  (length A + length K) (length A + length K + length R)
               = Inr (A @ K @ filter pred U @ R' @ Z, length A + length K + length (filter pred U))
             \<and> mset R' = mset R + mset (filter (\<lambda>q. \<not> pred q) U)"
  using assms
proof (induction U arbitrary: K R)
  case Nil
  show ?case by (subst hsp_loop.simps) simp
next
  case (Cons x U)
  let ?it = "length A + length K + length R"
  have nth: "(A @ K @ R @ (x # U) @ Z) ! ?it = x"
    by (simp add: nth_append)
  show ?case
  proof (cases "pred x")
    case False
    from Cons.prems False have "\<forall>r\<in>set (R @ [x]). \<not> pred r" by simp
    from Cons.IH[OF this, of K] obtain R' where
      R': "hsp_loop pred (length A + length K + length (R @ [x]) + length U) (A @ K @ (R @ [x]) @ U @ Z)
            (length A + length K) (length A + length K + length (R @ [x]))
           = Inr (A @ K @ filter pred U @ R' @ Z, length A + length K + length (filter pred U))"
      and m: "mset R' = mset (R @ [x]) + mset (filter (\<lambda>q. \<not> pred q) U)" by blast
    have "hsp_loop pred (length A + length K + length R + length (x # U)) (A @ K @ R @ (x # U) @ Z)
            (length A + length K) ?it
        = hsp_loop pred (length A + length K + length R + length (x # U)) (A @ K @ R @ (x # U) @ Z)
            (length A + length K) (Suc ?it)"
      using False nth by (subst hsp_loop.simps) simp
    with R' m False show ?thesis by (intro exI[of _ R']) simp
  next
    case True
    show ?thesis
    proof (cases R)
      case Nil
      from Cons.IH[of "[]" "K @ [x]"] obtain R' where
        R': "hsp_loop pred (length A + length (K @ [x]) + length U) (A @ (K @ [x]) @ U @ Z)
              (length A + length (K @ [x])) (length A + length (K @ [x]))
             = Inr (A @ (K @ [x]) @ filter pred U @ R' @ Z, length A + length (K @ [x]) + length (filter pred U))"
        and m: "mset R' = mset (filter (\<lambda>q. \<not> pred q) U)" by auto
      have "hsp_loop pred (length A + length K + length R + length (x # U)) (A @ K @ R @ (x # U) @ Z)
              (length A + length K) ?it
          = hsp_loop pred (length A + length K + length R + length (x # U)) (A @ K @ R @ (x # U) @ Z)
              (Suc (length A + length K)) (Suc ?it)"
        using True nth Nil by (subst hsp_loop.simps) simp
      with R' m True Nil show ?thesis by (intro exI[of _ R']) simp
    next
      case (Cons r R0)
      from Cons.prems Cons have "\<forall>r\<in>set (R0 @ [r]). \<not> pred r" by simp
      from Cons.IH[OF this, of "K @ [x]"] obtain R' where
        R': "hsp_loop pred (length A + length (K @ [x]) + length (R0 @ [r]) + length U) (A @ (K @ [x]) @ (R0 @ [r]) @ U @ Z)
              (length A + length (K @ [x])) (length A + length (K @ [x]) + length (R0 @ [r]))
             = Inr (A @ (K @ [x]) @ filter pred U @ R' @ Z, length A + length (K @ [x]) + length (filter pred U))"
        and m: "mset R' = mset (R0 @ [r]) + mset (filter (\<lambda>q. \<not> pred q) U)" by blast
      have sw: "swap_pts (A @ K @ R @ x # U @ Z) ?it (length A + length K) = A @ K @ x # R0 @ r # U @ Z"
        using swap_pts_append[of "A @ K" r R0 x "U @ Z"] Cons by (simp add: add.assoc)
      have "hsp_loop pred (length A + length K + length R + length (x # U)) (A @ K @ R @ (x # U) @ Z)
              (length A + length K) ?it
          = hsp_loop pred (length A + length K + length R + length (x # U)) (A @ (K @ [x]) @ (R0 @ [r]) @ U @ Z)
              (Suc (length A + length K)) (Suc ?it)"
        using True nth by (subst hsp_loop.simps) (simp add: sw)
      with R' m True Cons show ?thesis by (intro exI[of _ R']) simp
    qed
  qed
qed

lemma half_stable_partition_spec:
  "\<exists>R'. half_stable_partition (A @ U @ Z) (length A) (length A + length U) pred
         = Inr (A @ filter pred U @ R' @ Z, length A + length (filter pred U))
       \<and> mset R' = mset (filter (\<lambda>q. \<not> pred q) U)"
  using hsp_loop_spec[of "[]" pred A "[]" U Z] by (simp add: half_stable_partition_def)


lemma range_split:
  assumes "first \<le> last'" "last' \<le> length ps"
  shows "ps = take first ps @ range_of ps first last' @ drop last' ps"
    and "length (take first ps) = first"
    and "length (range_of ps first last') = last' - first"
proof -
  have "range_of ps first last' @ drop last' ps = drop first ps"
    using assms by (simp add: range_of_def take_add[symmetric] drop_drop[symmetric] del: drop_drop)
      (metis add_diff_cancel_left' append_take_drop_id drop_drop le_Suc_ex add.commute)
  then show "ps = take first ps @ range_of ps first last' @ drop last' ps" by simp
  show "length (take first ps) = first" using assms by simp
  show "length (range_of ps first last') = last' - first" using assms by (simp add: range_of_def)
qed

lemma range_of_append_mid:
  "range_of (A @ U @ Z) (length A) (length A + length U) = U"
  by (simp add: range_of_def)

lemma range_of_append_pre:
  "n \<le> length U \<Longrightarrow> range_of (A @ U @ Z) (length A) (length A + n) = take n U"
  by (simp add: range_of_def)

lemma range_of_append_suf:
  "n \<le> length U \<Longrightarrow> range_of (A @ U @ Z) (length A + n) (length A + length U) = drop n U"
  by (simp add: range_of_def)

text \<open>
  C4. On a valid range \<open>[first, last')\<close> of the buffer, \<open>half_stable_partition\<close> returns a
  boundary \<open>p\<close> and a buffer that differs from the old one only inside the range, where it
  is a permutation of the old contents; \<open>[first, p)\<close> holds exactly the elements satisfying
  the predicate, in their original relative order, and no element of \<open>[p, last')\<close>
  satisfies it.
\<close>

theorem half_stable_partition_correct:
  assumes "first \<le> last'" "last' \<le> length ps"
  shows "\<exists>ps' p. half_stable_partition ps first last' pred = Inr (ps', p)
           \<and> length ps' = length ps
           \<and> take first ps' = take first ps \<and> drop last' ps' = drop last' ps
           \<and> first \<le> p \<and> p \<le> last'
           \<and> mset (range_of ps' first last') = mset (range_of ps first last')
           \<and> range_of ps' first p = filter pred (range_of ps first last')
           \<and> (\<forall>q \<in> set (range_of ps' p last'). \<not> pred q)"
proof -
  define A where "A = take first ps"
  define U where "U = range_of ps first last'"
  define Z where "Z = drop last' ps"
  from range_split[OF assms] have ps: "ps = A @ U @ Z" and lA: "length A = first"
    and lU: "length U = last' - first"
    by (simp_all add: A_def U_def Z_def)
  from half_stable_partition_spec[of A U Z pred] obtain R' where
    r: "half_stable_partition (A @ U @ Z) (length A) (length A + length U) pred
         = Inr (A @ filter pred U @ R' @ Z, length A + length (filter pred U))"
    and m: "mset R' = mset (filter (\<lambda>q. \<not> pred q) U)" by blast
  let ?ps' = "A @ filter pred U @ R' @ Z"
  let ?p = "first + length (filter pred U)"
  have last: "length A + length U = last'" using lA lU assms by simp
  from m have lR: "length R' = length (filter (\<lambda>q. \<not> pred q) U)"
    by (metis size_mset)
  have lsum: "length (filter pred U) + length R' = length U"
    using lR sum_length_filter_compl[of pred U] by simp
  have 1: "half_stable_partition ps first last' pred = Inr (?ps', ?p)"
    using r ps lA last by simp
  have 2: "length ?ps' = length ps" using ps lsum by simp
  have 3: "take first ?ps' = take first ps" using ps lA by simp
  have 4: "drop last' ?ps' = drop last' ps"
    using ps lA last lsum by (simp add: Z_def)
  have 5: "first \<le> ?p" "?p \<le> last'" using lsum last lA by auto
  have seg: "range_of ?ps' first last' = filter pred U @ R'"
    using range_of_append_mid[of A "filter pred U @ R'" Z] lA last lsum by simp
  have 6: "mset (range_of ?ps' first last') = mset (range_of ps first last')"
    unfolding seg using m by (simp add: U_def[symmetric])
  have 7: "range_of ?ps' first ?p = filter pred (range_of ps first last')"
    using range_of_append_pre[of "length (filter pred U)" "filter pred U @ R'" A Z] lA
    by (simp add: U_def[symmetric])
  have 8: "range_of ?ps' ?p last' = R'"
    using range_of_append_suf[of "length (filter pred U)" "filter pred U @ R'" A Z] lA last lsum
    by simp
  have 9: "\<forall>q \<in> set (range_of ?ps' ?p last'). \<not> pred q"
  proof
    fix q assume "q \<in> set (range_of ?ps' ?p last')"
    then have "q \<in># mset R'" by (simp add: 8)
    then show "\<not> pred q" by (simp add: m)
  qed
  from 1 2 3 4 5 6 7 9 show ?thesis by blast
qed

theorem half_stable_partition_correct_witness:
  "(1::nat) \<le> 4 \<and> 4 \<le> length [\<lparr>px = 9, py = 9\<rparr>, \<lparr>px = 0, py = 1\<rparr>, \<lparr>px = 2, py = 0\<rparr>, \<lparr>px = 3, py = 5\<rparr>]
   \<and> (\<exists>ps' p. half_stable_partition
                 [\<lparr>px = 9, py = 9\<rparr>, \<lparr>px = 0, py = 1\<rparr>, \<lparr>px = 2, py = 0\<rparr>, \<lparr>px = 3, py = 5\<rparr>] 1 4 (\<lambda>q. 0 < px q)
                 = Inr (ps', p)
        \<and> range_of ps' 1 p = [\<lparr>px = 2, py = 0\<rparr>, \<lparr>px = 3, py = 5\<rparr>]
        \<and> (\<forall>q \<in> set (range_of ps' p 4). \<not> 0 < px q))"
proof -
  let ?ps = "[\<lparr>px = 9, py = 9\<rparr>, \<lparr>px = 0, py = 1\<rparr>, \<lparr>px = 2, py = 0\<rparr>, \<lparr>px = 3, py = 5\<rparr>]"
  have h1: "(1::nat) \<le> 4" by simp
  have h2: "4 \<le> length ?ps" by simp
  from half_stable_partition_correct[OF h1 h2, of "\<lambda>q. 0 < px q"] obtain ps' p where
    "half_stable_partition ?ps 1 4 (\<lambda>q. 0 < px q) = Inr (ps', p)"
    "range_of ps' 1 p = filter (\<lambda>q. 0 < px q) (range_of ?ps 1 4)"
    "\<forall>q \<in> set (range_of ps' p 4). \<not> 0 < px q" by blast
  moreover have "filter (\<lambda>q. 0 < px q) (range_of ?ps 1 4) = [\<lparr>px = 2, py = 0\<rparr>, \<lparr>px = 3, py = 5\<rparr>]"
    by (simp add: range_of_def)
  ultimately show ?thesis using h1 h2 by auto
qed

section \<open>Runs on degenerate inputs\<close>

text \<open>
  C6. \<open>calculate\<close> has no guard for \<open>n = 0\<close>: whatever the buffers hold, it enters
  \<open>grahamScan\<close>, which reads \<open>ps[0]\<close> and calls \<open>std::sort\<close> on the invalid range
  \<open>[ps + 1, ps + 0)\<close>. The input is not rejected before the algorithms run.
\<close>

theorem calculate_zero_points: "calculate ps buffer gen 0 = Inl OutOfRange"
proof -
  have fill: "fill_loop gen 0 0 ps buffer = Inr (ps, buffer)"
    by (subst fill_loop.simps) simp
  have "grahamScan ps 0 = Inl OutOfRange"
    by (simp add: grahamScan_def min_element_def transform_range_def sort_range_def Let_def)
  with fill show ?thesis by (simp add: calculate_def)
qed

text \<open>
  C8. A single point, \<open>n = 1\<close>. \<open>quickHull\<close> puts the point on the first side, so the second
  side is empty: \<open>ASSERT(*pivot == left)\<close> reads the slot after the range and the second
  \<open>findHull\<close> runs past it; no count is returned. \<open>grahamScan\<close> reads \<open>ps[1]\<close> and, when the
  buffer has that slot, returns \<open>s + 1 = 2\<close>, not 1.
\<close>

theorem single_point_runs:
  "quickHull [\<lparr>px = 5, py = 5\<rparr>] 0 1 = Inl OutOfRange
   \<and> quickHull [\<lparr>px = 5, py = 5\<rparr>, \<lparr>px = 7, py = 7\<rparr>] 0 1 = Inl AssertFailed
   \<and> quickHull [\<lparr>px = 5, py = 5\<rparr>, \<lparr>px = 5, py = 5\<rparr>] 0 1 = Inl OutOfRange
   \<and> grahamScan [\<lparr>px = 5, py = 5\<rparr>] 1 = Inl OutOfRange
   \<and> grahamScan [\<lparr>px = 5, py = 5\<rparr>, \<lparr>px = 7, py = 7\<rparr>] 1
       = Inr ([\<lparr>px = 5, py = 5\<rparr>, \<lparr>px = 7, py = 7\<rparr>], 2)"
  by code_simp

text \<open>
  C1. The points \<open>(0,0), (1,1), (1,1)\<close>: the lexicographic maximum occurs twice and no point
  lies strictly left of the line from the maximum to the minimum. \<open>quickHull\<close> returns
  count 3, and the hull prefix holds the vertex \<open>(1,1)\<close> twice.
\<close>

theorem quickHull_repeated_maximum:
  "quickHull [\<lparr>px = 0, py = 0\<rparr>, \<lparr>px = 1, py = 1\<rparr>, \<lparr>px = 1, py = 1\<rparr>] 0 3
     = Inr ([\<lparr>px = 1, py = 1\<rparr>, \<lparr>px = 1, py = 1\<rparr>, \<lparr>px = 0, py = 0\<rparr>], 3)"
  by code_simp

text \<open>
  C5. The points \<open>(0,0), (1,0), (2,0), (2,0)\<close>: \<open>quickHull\<close> returns count 3 with the
  prefix \<open>(2,0), (2,0), (0,0)\<close>, three consecutive vertices on one line.
\<close>

theorem quickHull_collinear_prefix:
  "\<exists>ps'. quickHull [\<lparr>px = 0, py = 0\<rparr>, \<lparr>px = 1, py = 0\<rparr>, \<lparr>px = 2, py = 0\<rparr>, \<lparr>px = 2, py = 0\<rparr>] 0 4 = Inr (ps', 3)
     \<and> take 3 ps' = [\<lparr>px = 2, py = 0\<rparr>, \<lparr>px = 2, py = 0\<rparr>, \<lparr>px = 0, py = 0\<rparr>]
     \<and> cross (pt_minus (ps' ! 1) (ps' ! 0)) (pt_minus (ps' ! 2) (ps' ! 1)) = 0"
proof -
  have "quickHull [\<lparr>px = 0, py = 0\<rparr>, \<lparr>px = 1, py = 0\<rparr>, \<lparr>px = 2, py = 0\<rparr>, \<lparr>px = 2, py = 0\<rparr>] 0 4
     = Inr ([\<lparr>px = 2, py = 0\<rparr>, \<lparr>px = 2, py = 0\<rparr>, \<lparr>px = 0, py = 0\<rparr>, \<lparr>px = 1, py = 0\<rparr>], 3)"
    by code_simp
  then show ?thesis by (simp add: cross_def pt_minus_def)
qed

text \<open>
  C2. The point \<open>(3,3)\<close> given twice: \<open>grahamScan\<close> returns count 2, while \<open>quickHull\<close>
  leaves its second side empty and runs out of the range, so there is no QuickHull prefix
  to compare.
\<close>

theorem engines_on_repeated_point:
  "quickHull [\<lparr>px = 3, py = 3\<rparr>, \<lparr>px = 3, py = 3\<rparr>] 0 2 = Inl OutOfRange
   \<and> grahamScan [\<lparr>px = 3, py = 3\<rparr>, \<lparr>px = 3, py = 3\<rparr>] 2
       = Inr ([\<lparr>px = 3, py = 3\<rparr>, \<lparr>px = 3, py = 3\<rparr>], 2)"
  by code_simp

section \<open>QuickHull at the level of lists\<close>

text \<open>
  The remaining sections describe the buffer operations by what they do to the list of
  points in the range they work on. \<open>far_list\<close> is the farthest-point loop on a list,
  \<open>hull_arc u v xs\<close> the arc that \<open>findHull\<close> leaves in front of a range holding \<open>u\<close>
  followed by \<open>xs\<close>, and \<open>arc_ok u v xs\<close> says that every \<open>ASSERT(cur_dist >= 0)\<close> met on
  the way holds. \<open>findHull_spec\<close> proves that the buffer code computes exactly these.
\<close>

lemma swap_ranges_spec:
  "\<exists>M'. swap_ranges (X @ M @ Y @ W) (length X + length M) (length X + length M + length Y) (length X)
          = Inr (X @ Y @ M' @ W, length X + length Y)
        \<and> mset M' = mset M"
proof (induction Y arbitrary: X M)
  case Nil
  show ?case by (subst swap_ranges.simps) simp
next
  case (Cons y Y)
  show ?case
  proof (cases M)
    case Nil
    from Cons.IH[of "X @ [y]" "[]"] obtain M' where
      "swap_ranges (X @ y # Y @ W) (Suc (length X)) (Suc (length X + length Y)) (Suc (length X))
         = Inr (X @ y # Y @ M' @ W, Suc (length X + length Y))" "mset M' = {#}"
      by auto
    with Nil show ?thesis by (subst swap_ranges.simps) simp
  next
    case (Cons m M0)
    have sw: "swap_pts (X @ m # M0 @ y # Y @ W) (Suc (length X + length M0)) (length X)
                = X @ y # M0 @ m # Y @ W"
      by (rule swap_pts_append)
    from Cons.IH[of "X @ [y]" "M0 @ [m]"] obtain M' where
      "swap_ranges (X @ y # M0 @ m # Y @ W) (Suc (Suc (length X + length M0)))
           (Suc (Suc (length X + length M0 + length Y))) (Suc (length X))
         = Inr (X @ y # Y @ M' @ W, Suc (length X + length Y))" "mset M' = mset (M0 @ [m])"
      by auto
    with Cons sw show ?thesis by (subst swap_ranges.simps) (auto simp: nth_append)
  qed
qed

fun far_list :: "point \<Rightarrow> point \<Rightarrow> point list \<Rightarrow> nat \<Rightarrow> real \<Rightarrow> nat \<Rightarrow> nat" where
  "far_list d u [] it dist' far = far"
| "far_list d u (x # xs) it dist' far =
     (if dist' < cross d (pt_minus u x) then far_list d u xs (Suc it) (cross d (pt_minus u x)) it
      else far_list d u xs (Suc it) dist' far)"

lemma far_loop_spec:
  "far_loop (P @ xs @ Z) d u (length P + length xs) (length P) dist' far0 =
     (if \<forall>x\<in>set xs. 0 \<le> cross d (pt_minus u x) then Inr (far_list d u xs (length P) dist' far0)
      else Inl AssertFailed)"
proof (induction xs arbitrary: P dist' far0)
  case Nil
  show ?case by (subst far_loop.simps) simp
next
  case (Cons x xs)
  have nth: "(P @ (x # xs) @ Z) ! length P = x" by (simp add: nth_append)
  have step: "far_loop (P @ (x # xs) @ Z) d u (Suc (length P + length xs)) (Suc (length P)) dd ff =
     (if \<forall>x\<in>set xs. 0 \<le> cross d (pt_minus u x) then Inr (far_list d u xs (Suc (length P)) dd ff)
      else Inl AssertFailed)" for dd ff
    using Cons.IH[of "P @ [x]" dd ff] by simp
  show ?case
    by (subst far_loop.simps) (simp add: nth step Let_def del: append.simps)
qed


lemma far_list_range:
  "far_list d u xs it dist' far0 = far0
   \<or> (it \<le> far_list d u xs it dist' far0 \<and> far_list d u xs it dist' far0 < it + length xs)"
proof (induction xs arbitrary: it dist' far0)
  case Nil
  show ?case by simp
next
  case (Cons x xs)
  from Cons.IH[of "Suc it" "cross d (pt_minus u x)" it] Cons.IH[of "Suc it" dist' far0]
  show ?case by auto
qed

lemma far_list_less: "xs \<noteq> [] \<Longrightarrow> far_list d u xs 0 dist' 0 < length xs"
  using far_list_range[of d u xs 0 dist' 0] by auto

lemma far_list_shift:
  "far_list d u xs (it + c) dist' (far0 + c) = far_list d u xs it dist' far0 + c"
proof (induction xs arbitrary: it dist' far0)
  case Nil
  show ?case by simp
next
  case (Cons x xs)
  from Cons.IH[of "Suc it" "cross d (pt_minus u x)" it] Cons.IH[of "Suc it" dist' far0]
  show ?case by simp
qed

lemma far_list_offset:
  assumes "xs \<noteq> []" "dist' < cross d (pt_minus u (hd xs))"
  shows "far_list d u xs (Suc c) dist' c = far_list d u xs 0 dist' 0 + Suc c"
proof -
  from assms(1) obtain x xs' where xs: "xs = x # xs'" by (cases xs) auto
  from far_list_shift[of d u xs' 1 "Suc c" "cross d (pt_minus u x)" 0]
  show ?thesis using assms(2) by (simp add: xs)
qed




function hull_arc :: "point \<Rightarrow> point \<Rightarrow> point list \<Rightarrow> point list" where
  "hull_arc u v xs =
     (if xs = [] then []
      else
        let k = far_list (pt_minus v u) u xs 0 (- 1) 0;
            f = xs ! k;
            out = isOuterior (pt_minus u f) (pt_minus v f) f
        in hull_arc u f (filter out (take k xs)) @ f # hull_arc f v (filter out (drop (Suc k) xs)))"
  by pat_completeness auto
termination
proof (relation "measure (\<lambda>(u, v, xs). length xs)", goal_cases)
  case 1
  show ?case by simp
next
  case (2 u v xs k f out)
  from far_list_less[OF 2(1)] 2(2) have "k < length xs" by simp
  moreover have "length (filter out (take k xs)) \<le> length (take k xs)" by (rule length_filter_le)
  ultimately show ?case by simp
next
  case (3 u v xs k f out)
  have "length (filter out (drop (Suc k) xs)) \<le> length (drop (Suc k) xs)" by (rule length_filter_le)
  with 3(1) show ?case by (cases xs) auto
qed

declare hull_arc.simps [simp del]

function arc_ok :: "point \<Rightarrow> point \<Rightarrow> point list \<Rightarrow> bool" where
  "arc_ok u v xs =
     (if xs = [] then True
      else if \<not> (\<forall>x\<in>set xs. 0 \<le> cross (pt_minus v u) (pt_minus u x)) then False
      else
        let k = far_list (pt_minus v u) u xs 0 (- 1) 0;
            f = xs ! k;
            out = isOuterior (pt_minus u f) (pt_minus v f) f
        in arc_ok u f (filter out (take k xs)) \<and> arc_ok f v (filter out (drop (Suc k) xs)))"
  by pat_completeness auto
termination
proof (relation "measure (\<lambda>(u, v, xs). length xs)", goal_cases)
  case 1
  show ?case by simp
next
  case (2 u v xs k f out)
  from far_list_less[OF 2(1)] 2(3) have "k < length xs" by simp
  moreover have "length (filter out (take k xs)) \<le> length (take k xs)" by (rule length_filter_le)
  ultimately show ?case by simp
next
  case (3 u v xs k f out)
  have "length (filter out (drop (Suc k) xs)) \<le> length (drop (Suc k) xs)" by (rule length_filter_le)
  with 3(1) show ?case by (cases xs) auto
qed

declare arc_ok.simps [simp del]



lemma hull_arc_Nil [simp]: "hull_arc u v [] = []"
  by (subst hull_arc.simps) simp

lemma arc_ok_Nil [simp]: "arc_ok u v []"
  by (subst arc_ok.simps) simp

lemma findHull_step:
  assumes "first < length ps" "ps ! first = u" "first + 1 \<noteq> last'"
    and "far_loop ps (pt_minus v u) u last' (first + 1) (- 1) first = Inr far"
    and "far < length ps" "ps ! far = f"
    and "half_stable_partition ps (first + 1) far (isOuterior (pt_minus u f) (pt_minus v f) f)
           = Inr (ps1, pivot)"
  shows "findHull ps first last' u v =
    (case findHull ps1 first pivot u f of
       Inl e \<Rightarrow> Inl e
     | Inr (ps2, left_boundary) \<Rightarrow>
       (case half_stable_partition ps2 (far + 1) last' (isOuterior (pt_minus u f) (pt_minus v f) f) of
          Inl e \<Rightarrow> Inl e
        | Inr (ps3, pivot') \<Rightarrow>
          (case findHull ps3 far pivot' f v of
             Inl e \<Rightarrow> Inl e
           | Inr (ps4, right_boundary) \<Rightarrow> swap_ranges ps4 far right_boundary left_boundary)))"
  using assms by (subst findHull.simps) (simp add: pt_eq_def Let_def)



lemma findHull_spec:
  "(arc_ok u v xs \<longrightarrow>
      (\<exists>R'. findHull (P @ u # xs @ Z) (length P) (Suc (length P + length xs)) u v
               = Inr (P @ u # hull_arc u v xs @ R' @ Z, Suc (length P + length (hull_arc u v xs)))
           \<and> mset (hull_arc u v xs) + mset R' = mset xs))
   \<and> (\<not> arc_ok u v xs \<longrightarrow>
      findHull (P @ u # xs @ Z) (length P) (Suc (length P + length xs)) u v = Inl AssertFailed)"
proof (induction "length xs" arbitrary: u v xs P Z rule: less_induct)
  case less
  show ?case
  proof (cases "xs = []")
    case True
    have "findHull (P @ u # Z) (length P) (Suc (length P)) u v = Inr (P @ u # Z, Suc (length P))"
      by (subst findHull.simps) (simp add: nth_append pt_eq_def)
    with True show ?thesis by simp
  next
    case False
    define d where "d = pt_minus v u"
    define k where "k = far_list d u xs 0 (- 1) 0"
    define f where "f = xs ! k"
    define out where "out = isOuterior (pt_minus u f) (pt_minus v f) f"
    define T where "T = take k xs"
    define D where "D = drop (Suc k) xs"
    define A where "A = filter out T"
    define B where "B = filter out D"
    define ps where "ps = P @ u # xs @ Z"
    define first where "first = length P"
    define last' where "last' = Suc (length P + length xs)"
    define far where "far = Suc (length P + k)"
    have klt: "k < length xs" unfolding k_def by (rule far_list_less[OF False])
    have xs: "xs = T @ f # D" unfolding T_def D_def f_def by (rule id_take_nth_drop[OF klt])
    have lT: "length T = k" using klt by (simp add: T_def)
    have harc: "hull_arc u v xs = hull_arc u f A @ f # hull_arc f v B"
      by (subst hull_arc.simps)
        (simp add: False Let_def d_def[symmetric] k_def[symmetric] f_def[symmetric]
          out_def[symmetric] T_def[symmetric] D_def[symmetric] A_def[symmetric] B_def[symmetric])
    have hok: "arc_ok u v xs \<longleftrightarrow>
        (\<forall>x\<in>set xs. 0 \<le> cross d (pt_minus u x)) \<and> arc_ok u f A \<and> arc_ok f v B"
      by (subst arc_ok.simps)
        (simp add: False Let_def d_def[symmetric] k_def[symmetric] f_def[symmetric]
          out_def[symmetric] T_def[symmetric] D_def[symmetric] A_def[symmetric] B_def[symmetric])
    have "length T < length xs" using lT klt by simp
    from le_less_trans[OF length_filter_le this, of out]
    have lA: "length A < length xs" by (simp add: A_def)
    have "length D < length xs" using False by (cases xs) (simp_all add: D_def)
    from le_less_trans[OF length_filter_le this, of out]
    have lB: "length B < length xs" by (simp add: B_def)
    have b1: "first < length ps" "ps ! first = u" "first + 1 \<noteq> last'"
      using False by (simp_all add: ps_def first_def last'_def nth_append)
    have fl: "far_loop ps d u last' (first + 1) (- 1) first =
        (if \<forall>x\<in>set xs. 0 \<le> cross d (pt_minus u x)
         then Inr (far_list d u xs (Suc (length P)) (- 1) (length P)) else Inl AssertFailed)"
      using far_loop_spec[of "P @ [u]" xs Z d u "- 1" "length P"]
      by (simp add: ps_def first_def last'_def)
    show ?thesis
    proof (cases "\<forall>x\<in>set xs. 0 \<le> cross d (pt_minus u x)")
      case nn: False
      with fl have "far_loop ps d u last' (first + 1) (- 1) first = Inl AssertFailed" by simp
      then have "findHull ps first last' u v = Inl AssertFailed"
        using b1 by (subst findHull.simps) (simp add: pt_eq_def d_def)
      with nn hok show ?thesis by (simp add: ps_def first_def last'_def)
    next
      case nn: True
      from False nn have "- 1 < cross d (pt_minus u (hd xs))"
        by (cases xs) (auto intro: less_le_trans[of _ 0])
      from far_list_offset[OF False this, of "length P"]
      have "far_list d u xs (Suc (length P)) (- 1) (length P) = far"
        by (simp add: far_def k_def)
      with fl nn have e1: "far_loop ps (pt_minus v u) u last' (first + 1) (- 1) first = Inr far"
        by (simp add: d_def)
      have b2: "far < length ps" "ps ! far = f"
        using klt by (simp_all add: ps_def far_def f_def nth_append)
      from half_stable_partition_spec[of "P @ [u]" T "f # D @ Z" out] obtain R1 where
        h1: "half_stable_partition ((P @ [u]) @ T @ f # D @ Z) (length (P @ [u]))
               (length (P @ [u]) + length T) out
             = Inr ((P @ [u]) @ filter out T @ R1 @ f # D @ Z, length (P @ [u]) + length (filter out T))"
        and m1: "mset R1 = mset (filter (\<lambda>q. \<not> out q) T)" by blast
      define ps1 where "ps1 = P @ u # A @ (R1 @ f # D @ Z)"
      define pivot where "pivot = Suc (length P + length A)"
      have pseq: "ps = (P @ [u]) @ T @ f # D @ Z" by (simp add: ps_def xs)
      have e2: "half_stable_partition ps (first + 1) far
                  (isOuterior (pt_minus u f) (pt_minus v f) f) = Inr (ps1, pivot)"
        using h1 unfolding pseq
        by (simp add: first_def far_def lT ps1_def pivot_def A_def out_def)
      note step = findHull_step[OF b1 e1 b2 e2]
      have lTA: "length A + length R1 = k"
        using sum_length_filter_compl[of out T] lT m1
        by (metis A_def size_mset)
      show ?thesis
      proof (cases "arc_ok u f A")
        case okA: False
        from less(1)[OF lA, of u f P "R1 @ f # D @ Z"] okA
        have "findHull ps1 first pivot u f = Inl AssertFailed"
          by (simp add: ps1_def first_def pivot_def)
        with step have "findHull ps first last' u v = Inl AssertFailed" by simp
        with okA hok show ?thesis by (simp add: ps_def first_def last'_def)
      next
        case okA: True
        from less(1)[OF lA, of u f P "R1 @ f # D @ Z"] okA obtain R1' where
          e3': "findHull (P @ u # A @ R1 @ f # D @ Z) (length P) (Suc (length P + length A)) u f
                = Inr (P @ u # hull_arc u f A @ R1' @ R1 @ f # D @ Z, Suc (length P + length (hull_arc u f A)))"
          and m1': "mset (hull_arc u f A) + mset R1' = mset A" by auto
        define hA where "hA = hull_arc u f A"
        define lb where "lb = Suc (length P + length hA)"
        define Q where "Q = P @ u # hA @ R1' @ R1"
        define ps2 where "ps2 = (Q @ [f]) @ D @ Z"
        have e3: "findHull ps1 first pivot u f = Inr (ps2, lb)"
          using e3' by (simp add: ps1_def first_def pivot_def ps2_def Q_def lb_def hA_def)
        have lhA: "length hA + length R1' = length A"
          using m1' by (metis hA_def size_mset size_union)
        have lQ: "length Q = far"
          using lhA lTA by (simp add: Q_def far_def)
        from half_stable_partition_spec[of "Q @ [f]" D Z out] obtain R2 where
          h2: "half_stable_partition ((Q @ [f]) @ D @ Z) (length (Q @ [f]))
                 (length (Q @ [f]) + length D) out
               = Inr ((Q @ [f]) @ filter out D @ R2 @ Z, length (Q @ [f]) + length (filter out D))"
          and m2: "mset R2 = mset (filter (\<lambda>q. \<not> out q) D)" by blast
        define ps3 where "ps3 = Q @ f # B @ (R2 @ Z)"
        define pivot' where "pivot' = Suc (length Q + length B)"
        have lD: "Suc (far + length D) = last'"
          using klt by (simp add: far_def last'_def D_def)
        have e4: "half_stable_partition ps2 (far + 1) last'
                  (isOuterior (pt_minus u f) (pt_minus v f) f) = Inr (ps3, pivot')"
          using h2 lD by (simp add: ps2_def lQ ps3_def pivot'_def B_def out_def)
        show ?thesis
        proof (cases "arc_ok f v B")
          case okB: False
          from less(1)[OF lB, of f v Q "R2 @ Z"] okB
          have "findHull ps3 far pivot' f v = Inl AssertFailed"
            by (simp add: ps3_def lQ pivot'_def)
          with step e3 e4 have "findHull ps first last' u v = Inl AssertFailed" by simp
          with okB hok show ?thesis by (simp add: ps_def first_def last'_def)
        next
          case okB: True
          from less(1)[OF lB, of f v Q "R2 @ Z"] okB obtain R2' where
            e5': "findHull (Q @ f # B @ R2 @ Z) (length Q) (Suc (length Q + length B)) f v
                  = Inr (Q @ f # hull_arc f v B @ R2' @ R2 @ Z, Suc (length Q + length (hull_arc f v B)))"
            and m2': "mset (hull_arc f v B) + mset R2' = mset B" by auto
          define hB where "hB = hull_arc f v B"
          define ps4 where "ps4 = (P @ u # hA) @ (R1' @ R1) @ (f # hB) @ (R2' @ R2 @ Z)"
          define rb where "rb = Suc (far + length hB)"
          have e5: "findHull ps3 far pivot' f v = Inr (ps4, rb)"
            using e5' by (simp add: ps3_def lQ[symmetric] pivot'_def ps4_def rb_def hB_def Q_def)
          from swap_ranges_spec[of "P @ u # hA" "R1' @ R1" "f # hB" "R2' @ R2 @ Z"] obtain M' where
            e6': "swap_ranges ((P @ u # hA) @ (R1' @ R1) @ (f # hB) @ R2' @ R2 @ Z)
                   (length (P @ u # hA) + length (R1' @ R1))
                   (length (P @ u # hA) + length (R1' @ R1) + length (f # hB)) (length (P @ u # hA))
                  = Inr ((P @ u # hA) @ (f # hB) @ M' @ R2' @ R2 @ Z, length (P @ u # hA) + length (f # hB))"
            and m3: "mset M' = mset (R1' @ R1)" by blast
          have far_eq: "far = length (P @ u # hA) + length (R1' @ R1)"
            using lQ by (simp add: Q_def)
          have e6: "swap_ranges ps4 far rb lb
                  = Inr (P @ u # (hA @ f # hB) @ (M' @ R2' @ R2) @ Z, Suc (length P + length (hA @ f # hB)))"
            using e6' unfolding ps4_def far_eq rb_def lb_def by (simp add: far_eq)
          from step e3 e4 e5 e6 have
            res: "findHull ps first last' u v
                  = Inr (P @ u # (hA @ f # hB) @ (M' @ R2' @ R2) @ Z, Suc (length P + length (hA @ f # hB)))"
            by simp
          have "mset T = mset A + mset R1"
            using m1 by (simp add: A_def)
          moreover have "mset D = mset B + mset R2"
            using m2 by (simp add: B_def)
          moreover have "mset xs = mset T + {#f#} + mset D"
          proof -
            have "mset xs = mset (T @ f # D)" using xs by simp
            then show ?thesis by simp
          qed
          ultimately have ms: "mset (hA @ f # hB) + mset (M' @ R2' @ R2) = mset xs"
            using m1'[symmetric] m2'[symmetric] m3 by (simp add: hA_def hB_def)
          from res ms harc okA okB nn hok show ?thesis
            unfolding ps_def first_def last'_def hA_def hB_def by auto
        qed
      qed
    qed
  qed
qed

subsection \<open>Ordering, sorting, extreme points\<close>

lemma pt_eq_iff [simp]: "pt_eq p q \<longleftrightarrow> p = q"
  by (auto simp: pt_eq_def)

lemma pt_less_irrefl [simp]: "\<not> pt_less p p"
  by (simp add: pt_less_def)

lemma pt_less_trans: "pt_less a b \<Longrightarrow> pt_less b c \<Longrightarrow> pt_less a c"
  by (auto simp: pt_less_def)




text \<open>Insertion sort: permutation, sortedness, and the identity on sorted input.\<close>

lemma mset_insort_by [simp]: "mset (insort_by lt a xs) = add_mset a (mset xs)"
  by (induction xs) auto

lemma mset_sort_by [simp]: "mset (sort_by lt xs) = mset xs"
  by (induction xs) (auto simp: sort_by_def)

lemma set_sort_by [simp]: "set (sort_by lt xs) = set xs"
  by (metis mset_sort_by set_mset_mset)

lemma length_sort_by [simp]: "length (sort_by lt xs) = length xs"
  by (metis mset_sort_by size_mset)

lemma sort_by_Nil [simp]: "sort_by lt [] = []"
  by (simp add: sort_by_def)


lemma set_insort_by [simp]: "set (insort_by lt a xs) = insert a (set xs)"
  by (metis mset_insort_by set_mset_add_mset_insert set_mset_mset)






text \<open>The values found by \<open>std::minmax_element\<close>.\<close>

definition lex_min :: "point list \<Rightarrow> point" where
  "lex_min xs = fold (\<lambda>x m. if pt_less x m then x else m) (tl xs) (hd xs)"

definition lex_max :: "point list \<Rightarrow> point" where
  "lex_max xs = fold (\<lambda>x m. if \<not> pt_less x m then x else m) (tl xs) (hd xs)"

lemma minmax_loop_spec:
  assumes "mn < length P + length S" "mx < length P + length S"
  shows "\<exists>mn' mx'. minmax_loop (P @ S @ U @ Z) (length P + length S + length U) (length P + length S) mn mx
            = Inr (mn', mx')
          \<and> mn' < length P + length S + length U \<and> mx' < length P + length S + length U
          \<and> (P @ S @ U @ Z) ! mn' = fold (\<lambda>x m. if pt_less x m then x else m) U ((P @ S @ U @ Z) ! mn)
          \<and> (P @ S @ U @ Z) ! mx' = fold (\<lambda>x m. if \<not> pt_less x m then x else m) U ((P @ S @ U @ Z) ! mx)"
  using assms
proof (induction U arbitrary: S mn mx)
  case Nil
  then show ?case by (subst minmax_loop.simps) simp
next
  case (Cons x U)
  let ?ps = "P @ S @ (x # U) @ Z"
  let ?it = "length P + length S"
  have nth: "?ps ! ?it = x" by (simp add: nth_append)
  define mn1 where "mn1 = (if pt_less x (?ps ! mn) then ?it else mn)"
  define mx1 where "mx1 = (if \<not> pt_less x (?ps ! mx) then ?it else mx)"
  have b: "mn1 < length P + length (S @ [x])" "mx1 < length P + length (S @ [x])"
    using Cons.prems by (auto simp: mn1_def mx1_def)
  have eq: "?ps = P @ (S @ [x]) @ U @ Z" by simp
  from Cons.IH[OF b] obtain mn' mx' where
    r: "minmax_loop (P @ (S @ [x]) @ U @ Z) (length P + length (S @ [x]) + length U)
          (length P + length (S @ [x])) mn1 mx1 = Inr (mn', mx')"
    and bb: "mn' < length P + length (S @ [x]) + length U" "mx' < length P + length (S @ [x]) + length U"
    and v1: "(P @ (S @ [x]) @ U @ Z) ! mn' =
          fold (\<lambda>x m. if pt_less x m then x else m) U ((P @ (S @ [x]) @ U @ Z) ! mn1)"
    and v2: "(P @ (S @ [x]) @ U @ Z) ! mx' =
          fold (\<lambda>x m. if \<not> pt_less x m then x else m) U ((P @ (S @ [x]) @ U @ Z) ! mx1)"
    by blast
  have step: "minmax_loop ?ps (length P + length S + length (x # U)) ?it mn mx
      = minmax_loop ?ps (length P + length S + length (x # U)) (Suc ?it) mn1 mx1"
    using Cons.prems nth by (subst minmax_loop.simps) (simp add: mn1_def mx1_def)
  have m1: "?ps ! mn1 = (if pt_less x (?ps ! mn) then x else ?ps ! mn)"
    using nth by (simp add: mn1_def)
  have m2: "?ps ! mx1 = (if \<not> pt_less x (?ps ! mx) then x else ?ps ! mx)"
    using nth by (simp add: mx1_def)
  have "minmax_loop ?ps (length P + length S + length (x # U)) ?it mn mx = Inr (mn', mx')"
    using r step by simp
  moreover have "?ps ! mn' = fold (\<lambda>x m. if pt_less x m then x else m) (x # U) (?ps ! mn)"
    using v1 m1 by (simp del: append.simps add: eq[symmetric]) (simp add: eq)
  moreover have "?ps ! mx' = fold (\<lambda>x m. if \<not> pt_less x m then x else m) (x # U) (?ps ! mx)"
    using v2 m2 by (simp del: append.simps add: eq[symmetric]) (simp add: eq)
  ultimately show ?case using bb by auto
qed

lemma minmax_element_spec:
  assumes "xs \<noteq> []"
  shows "\<exists>mn mx. minmax_element (P @ xs @ Z) (length P) (length P + length xs) = Inr (mn, mx)
          \<and> mn < length (P @ xs @ Z) \<and> mx < length (P @ xs @ Z)
          \<and> (P @ xs @ Z) ! mn = lex_min xs \<and> (P @ xs @ Z) ! mx = lex_max xs"
proof -
  from assms obtain x U where xs: "xs = x # U" by (cases xs) auto
  have b: "length P < length P + length [x]" by simp
  from minmax_loop_spec[OF b b, of U Z] obtain mn mx where
    "minmax_loop (P @ [x] @ U @ Z) (length P + length [x] + length U) (length P + length [x])
        (length P) (length P) = Inr (mn, mx)"
    "mn < length P + length [x] + length U" "mx < length P + length [x] + length U"
    "(P @ [x] @ U @ Z) ! mn = fold (\<lambda>x m. if pt_less x m then x else m) U ((P @ [x] @ U @ Z) ! length P)"
    "(P @ [x] @ U @ Z) ! mx = fold (\<lambda>x m. if \<not> pt_less x m then x else m) U ((P @ [x] @ U @ Z) ! length P)"
    by blast
  then show ?thesis
    by (auto simp: minmax_element_def xs lex_min_def lex_max_def nth_append)
qed

subsection \<open>The two sides and their arcs\<close>

lemma findHull_empty:
  assumes "last' \<le> first"
  shows "\<exists>e. findHull ps first last' u v = Inl e"
proof -
  have "\<exists>e. far_loop ps (pt_minus v u) u last' (first + 1) (- 1) first = Inl e"
  proof (cases "far_loop ps (pt_minus v u) u last' (first + 1) (- 1) first")
    case (Inl e)
    then show ?thesis by simp
  next
    case (Inr far)
    from far_loop_bounds[OF Inr] assms show ?thesis by simp
  qed
  then obtain e where "far_loop ps (pt_minus v u) u last' (first + 1) (- 1) first = Inl e" ..
  with assms show ?thesis by (subst findHull.simps) auto
qed

lemma partition_range_spec:
  "partition_range (A @ U @ Z) (length A) (length A + length U) pred
     = Inr (A @ filter pred U @ filter (\<lambda>p. \<not> pred p) U @ Z, length A + length (filter pred U))"
  by (simp add: partition_range_def range_of_def)

lemma sort_range_spec:
  "sort_range (A @ U @ Z) (length A) (length A + length U) lt = Inr (A @ sort_by lt U @ Z)"
  by (simp add: sort_range_def range_of_def)

definition side_pred :: "point \<Rightarrow> point \<Rightarrow> point \<Rightarrow> bool" where
  "side_pred left right p =
     (if pt_eq p right then True else 0 < cross (pt_minus p right) (pt_minus left right))"

definition first_side :: "point list \<Rightarrow> point list" where
  "first_side xs = sort_by pt_greater (filter (side_pred (lex_min xs) (lex_max xs)) xs)"

definition second_side :: "point list \<Rightarrow> point list" where
  "second_side xs = sort_by pt_less (filter (\<lambda>p. \<not> side_pred (lex_min xs) (lex_max xs) p) xs)"

definition arcs_ok :: "point list \<Rightarrow> bool" where
  "arcs_ok xs \<longleftrightarrow>
     first_side xs \<noteq> [] \<and> hd (first_side xs) = lex_max xs \<and>
     second_side xs \<noteq> [] \<and> hd (second_side xs) = lex_min xs \<and>
     arc_ok (lex_max xs) (lex_min xs) (tl (first_side xs)) \<and>
     arc_ok (lex_min xs) (lex_max xs) (tl (second_side xs))"

lemma quickHull_arcs_invalid:
  assumes "\<not> (first \<le> last' \<and> last' \<le> length ps)"
  shows "\<exists>e. quickHull_arcs ps first last' = Inl e"
  using assms
  by (auto simp: quickHull_arcs_def partition_range_def Let_def split: sum.splits)

lemma quickHull_arcs_empty: "\<exists>e. quickHull_arcs ps first first = Inl e"
proof (cases "first \<le> length ps")
  case False
  then show ?thesis by (intro quickHull_arcs_invalid) simp
next
  case True
  define A where "A = take first ps"
  define Z where "Z = drop first ps"
  have ps: "ps = A @ [] @ Z" and lA: "first = length A + length ([] :: point list)"
    using True by (simp_all add: A_def Z_def)
  have lA': "first = length A" using lA by simp
  have p: "partition_range ps first first pred = Inr (ps, first)" for pred
    using partition_range_spec[of A "[]" Z pred] ps lA' by simp
  have s: "sort_range ps first first lt = Inr ps" for lt
    using sort_range_spec[of A "[]" Z lt] ps lA' by simp
  from findHull_empty[of first first ps "ps ! first" "ps ! first"] obtain e where
    fe: "findHull ps first first (ps ! first) (ps ! first) = Inl e" by auto
  show ?thesis
    using fe by (auto simp: quickHull_arcs_def minmax_element_def p s Let_def split: sum.splits)
qed


lemma quickHull_arcs_spec:
  assumes "xs \<noteq> []"
  shows "(arcs_ok xs \<longrightarrow>
      (\<exists>R1 R2. quickHull_arcs (P @ xs @ Z) (length P) (length P + length xs)
          = Inr (P @ lex_max xs # hull_arc (lex_max xs) (lex_min xs) (tl (first_side xs)) @ R1
                   @ lex_min xs # hull_arc (lex_min xs) (lex_max xs) (tl (second_side xs)) @ R2 @ Z,
                 length P + length (first_side xs), lex_min xs, lex_max xs,
                 Suc (length P + length (hull_arc (lex_max xs) (lex_min xs) (tl (first_side xs)))),
                 Suc (length P + length (first_side xs)
                      + length (hull_arc (lex_min xs) (lex_max xs) (tl (second_side xs)))))
        \<and> mset (hull_arc (lex_max xs) (lex_min xs) (tl (first_side xs))) + mset R1
            = mset (tl (first_side xs))
        \<and> mset (hull_arc (lex_min xs) (lex_max xs) (tl (second_side xs))) + mset R2
            = mset (tl (second_side xs))))
   \<and> (\<not> arcs_ok xs \<longrightarrow>
      (\<exists>e. quickHull_arcs (P @ xs @ Z) (length P) (length P + length xs) = Inl e))"
proof -
  define ps where "ps = P @ xs @ Z"
  define first where "first = length P"
  define last' where "last' = length P + length xs"
  define L where "L = lex_min xs"
  define R where "R = lex_max xs"
  define pred where "pred = side_pred L R"
  define F1 where "F1 = filter pred xs"
  define F2 where "F2 = filter (\<lambda>p. \<not> pred p) xs"
  define S1 where "S1 = first_side xs"
  define S2 where "S2 = second_side xs"
  define pivot where "pivot = first + length F1"
  define ps3 where "ps3 = P @ S1 @ S2 @ Z"
  have S1: "S1 = sort_by pt_greater F1" by (simp add: S1_def first_side_def F1_def pred_def L_def R_def)
  have S2: "S2 = sort_by pt_less F2" by (simp add: S2_def second_side_def F2_def pred_def L_def R_def)
  have lF: "length F1 + length F2 = length xs"
    unfolding F1_def F2_def by (rule sum_length_filter_compl)
  from minmax_element_spec[OF assms, of P Z] obtain mn mx where
    mm: "minmax_element ps first last' = Inr (mn, mx)" "mn < length ps" "mx < length ps"
      "ps ! mn = L" "ps ! mx = R"
    by (auto simp: ps_def first_def last'_def L_def R_def)
  have predeq: "(\<lambda>p. p \<noteq> R \<longrightarrow> 0 < cross (pt_minus p R) (pt_minus L R)) = pred"
    by (auto simp: pred_def side_pred_def fun_eq_iff)
  have pr: "partition_range ps first last' pred = Inr (P @ F1 @ F2 @ Z, pivot)"
    using partition_range_spec[of P xs Z pred]
    by (simp add: ps_def first_def last'_def F1_def F2_def pivot_def)
  have s1: "sort_range (P @ F1 @ F2 @ Z) first pivot pt_greater = Inr (P @ S1 @ F2 @ Z)"
    using sort_range_spec[of P F1 "F2 @ Z" pt_greater] by (simp add: first_def pivot_def S1)
  have s2: "sort_range (P @ S1 @ F2 @ Z) pivot last' pt_less = Inr ps3"
    using sort_range_spec[of "P @ S1" F2 Z pt_less] lF[symmetric]
    by (simp add: first_def pivot_def last'_def S1 S2 ps3_def add.assoc)
  have unfold: "quickHull_arcs ps first last' =
      (if length ps3 \<le> first \<or> length ps3 \<le> pivot then Inl OutOfRange
       else if ps3 ! first \<noteq> R then Inl AssertFailed
       else if ps3 ! pivot \<noteq> L then Inl AssertFailed
       else (case findHull ps3 first pivot R L of
               Inl e \<Rightarrow> Inl e
             | Inr (ps4, left_boundary) \<Rightarrow>
                 (case findHull ps4 pivot last' L R of
                    Inl e \<Rightarrow> Inl e
                  | Inr (ps5, right_boundary) \<Rightarrow>
                      Inr (ps5, pivot, L, R, left_boundary, right_boundary))))"
    using mm by (simp add: quickHull_arcs_def Let_def predeq pr s1 s2)
  have lS1: "length S1 = length F1" by (simp add: S1)
  have lS2: "length S2 = length F2" by (simp add: S2)
  have pv: "pivot = length P + length S1" by (simp add: pivot_def first_def lS1)
  have lst: "last' = pivot + length S2" using lF by (simp add: last'_def pv lS1 lS2)
  have n1: "S1 \<noteq> [] \<Longrightarrow> ps3 ! first = hd S1"
    by (cases S1) (simp_all add: ps3_def first_def nth_append)
  have n2: "S2 \<noteq> [] \<Longrightarrow> ps3 ! pivot = hd S2"
    using nth_append_length[of "P @ S1" "hd S2" "tl S2 @ Z"]
    by (cases S2) (simp_all add: ps3_def pv)
  show ?thesis
  proof (intro conjI impI)
    assume ok: "arcs_ok xs"
    then obtain S1' S2' where c1: "S1 = R # S1'" and c2: "S2 = L # S2'"
      and ok1: "arc_ok R L S1'" and ok2: "arc_ok L R S2'"
      by (cases S1; cases S2) (auto simp: arcs_ok_def S1_def S2_def L_def R_def)
    define h1 where "h1 = hull_arc R L S1'"
    define h2 where "h2 = hull_arc L R S2'"
    from findHull_spec[of R L S1' P "S2 @ Z"] ok1 obtain R1 where
      f1: "findHull (P @ R # S1' @ S2 @ Z) (length P) (Suc (length P + length S1')) R L
            = Inr (P @ R # h1 @ R1 @ S2 @ Z, Suc (length P + length h1))"
      and m1: "mset h1 + mset R1 = mset S1'" by (auto simp: h1_def)
    have l1: "length h1 + length R1 = length S1'"
      using m1 by (metis size_mset size_union)
    define Q where "Q = P @ R # h1 @ R1"
    have lQ: "length Q = pivot" using l1 by (simp add: Q_def pv c1)
    from findHull_spec[of L R S2' Q Z] ok2 obtain R2 where
      f2: "findHull (Q @ L # S2' @ Z) (length Q) (Suc (length Q + length S2')) L R
            = Inr (Q @ L # h2 @ R2 @ Z, Suc (length Q + length h2))"
      and m2: "mset h2 + mset R2 = mset S2'" by (auto simp: h2_def)
    have e1: "findHull ps3 first pivot R L = Inr (Q @ L # S2' @ Z, Suc (length P + length h1))"
      using f1 by (simp add: ps3_def c1 c2 first_def pv Q_def)
    have e2: "findHull (Q @ L # S2' @ Z) pivot last' L R = Inr (Q @ L # h2 @ R2 @ Z, Suc (pivot + length h2))"
      using f2 by (simp add: lQ lst c2)
    have g: "\<not> (length ps3 \<le> first \<or> length ps3 \<le> pivot)" "ps3 ! first = R" "ps3 ! pivot = L"
      using n1 n2 by (simp_all add: c1 c2) (simp_all add: ps3_def first_def pv c1 c2)
    have "quickHull_arcs ps first last'
        = Inr (Q @ L # h2 @ R2 @ Z, pivot, L, R, Suc (length P + length h1), Suc (pivot + length h2))"
      using g by (simp add: unfold e1 e2)
    then show "\<exists>R1 R2. quickHull_arcs (P @ xs @ Z) (length P) (length P + length xs)
          = Inr (P @ lex_max xs # hull_arc (lex_max xs) (lex_min xs) (tl (first_side xs)) @ R1
                   @ lex_min xs # hull_arc (lex_min xs) (lex_max xs) (tl (second_side xs)) @ R2 @ Z,
                 length P + length (first_side xs), lex_min xs, lex_max xs,
                 Suc (length P + length (hull_arc (lex_max xs) (lex_min xs) (tl (first_side xs)))),
                 Suc (length P + length (first_side xs)
                      + length (hull_arc (lex_min xs) (lex_max xs) (tl (second_side xs)))))
        \<and> mset (hull_arc (lex_max xs) (lex_min xs) (tl (first_side xs))) + mset R1
            = mset (tl (first_side xs))
        \<and> mset (hull_arc (lex_min xs) (lex_max xs) (tl (second_side xs))) + mset R2
            = mset (tl (second_side xs))"
      using m1 m2 c1 c2
      unfolding ps_def first_def last'_def Q_def h1_def h2_def pv S1_def S2_def L_def R_def
      by (intro exI[of _ R1] exI[of _ R2]) simp
  next
    assume nok: "\<not> arcs_ok xs"
    show "\<exists>e. quickHull_arcs (P @ xs @ Z) (length P) (length P + length xs) = Inl e"
    proof (cases "S1 = []")
      case True
      then have "pivot = first" by (simp add: pv first_def)
      with findHull_empty[of pivot first ps3 R L] obtain e where
        "findHull ps3 first pivot R L = Inl e" by auto
      then have "\<exists>e. quickHull_arcs ps first last' = Inl e" by (simp add: unfold)
      then show ?thesis by (simp add: ps_def first_def last'_def)
    next
      case ne1: False
      show ?thesis
      proof (cases "hd S1 = R")
        case False
        with n1[OF ne1] have "\<exists>e. quickHull_arcs ps first last' = Inl e" by (simp add: unfold)
        then show ?thesis by (simp add: ps_def first_def last'_def)
      next
        case hd1: True
        show ?thesis
        proof (cases "S2 = []")
          case True
          then have pl: "last' = pivot" by (simp add: lst)
          have "\<exists>e. (case findHull ps3 first pivot R L of
               Inl e \<Rightarrow> Inl e
             | Inr (ps4, left_boundary) \<Rightarrow>
                 (case findHull ps4 pivot last' L R of
                    Inl e \<Rightarrow> Inl e
                  | Inr (ps5, right_boundary) \<Rightarrow>
                      Inr (ps5, pivot, L, R, left_boundary, right_boundary))) = Inl e"
          proof (cases "findHull ps3 first pivot R L")
            case (Inl e)
            then show ?thesis by simp
          next
            case (Inr r)
            obtain ps4 lb where r: "r = (ps4, lb)" by (cases r)
            from findHull_empty[of last' pivot ps4 L R] pl obtain e where
              "findHull ps4 pivot last' L R = Inl e" by auto
            with Inr r show ?thesis by simp
          qed
          then have "\<exists>e. quickHull_arcs ps first last' = Inl e" by (auto simp: unfold)
          then show ?thesis by (simp add: ps_def first_def last'_def)
        next
          case ne2: False
          show ?thesis
          proof (cases "hd S2 = L")
            case False
            with n2[OF ne2] have "\<exists>e. quickHull_arcs ps first last' = Inl e" by (simp add: unfold)
            then show ?thesis by (simp add: ps_def first_def last'_def)
          next
            case hd2: True
            from ne1 hd1 ne2 hd2 obtain S1' S2' where c1: "S1 = R # S1'" and c2: "S2 = L # S2'"
              by (cases S1; cases S2) auto
            from nok ne1 hd1 ne2 hd2 c1 c2 have cases: "\<not> arc_ok R L S1' \<or> \<not> arc_ok L R S2'"
              by (auto simp: arcs_ok_def S1_def S2_def L_def R_def)
            have e0: "ps3 = P @ R # S1' @ (S2 @ Z)" "first = length P" "pivot = Suc (length P + length S1')"
              by (simp_all add: ps3_def c1 first_def pv)
            show ?thesis
            proof (cases "arc_ok R L S1'")
              case False
              with findHull_spec[of R L S1' P "S2 @ Z"] have
                "findHull ps3 first pivot R L = Inl AssertFailed" by (simp add: e0)
              then have "\<exists>e. quickHull_arcs ps first last' = Inl e" by (simp add: unfold)
              then show ?thesis by (simp add: ps_def first_def last'_def)
            next
              case ok1: True
              with cases have nok2: "\<not> arc_ok L R S2'" by simp
              define h1 where "h1 = hull_arc R L S1'"
              from findHull_spec[of R L S1' P "S2 @ Z"] ok1 obtain R1 where
                f1: "findHull (P @ R # S1' @ S2 @ Z) (length P) (Suc (length P + length S1')) R L
                      = Inr (P @ R # h1 @ R1 @ S2 @ Z, Suc (length P + length h1))"
                and m1: "mset h1 + mset R1 = mset S1'" by (auto simp: h1_def)
              have l1: "length h1 + length R1 = length S1'"
                using m1 by (metis size_mset size_union)
              define Q where "Q = P @ R # h1 @ R1"
              have lQ: "length Q = pivot" using l1 by (simp add: Q_def pv c1)
              from findHull_spec[of L R S2' Q Z] nok2 have
                f2: "findHull (Q @ L # S2' @ Z) (length Q) (Suc (length Q + length S2')) L R
                      = Inl AssertFailed" by simp
              have e1: "findHull ps3 first pivot R L = Inr (Q @ L # S2' @ Z, Suc (length P + length h1))"
                using f1 by (simp add: ps3_def c1 c2 first_def pv Q_def)
              have e2: "findHull (Q @ L # S2' @ Z) pivot last' L R = Inl AssertFailed"
                using f2 by (simp add: lQ lst c2)
              have "\<exists>e. quickHull_arcs ps first last' = Inl e" by (simp add: unfold e1 e2)
              then show ?thesis by (simp add: ps_def first_def last'_def)
            qed
          qed
        qed
      qed
    qed
  qed
qed

lemma hull_arc_nonempty: "xs \<noteq> [] \<Longrightarrow> hull_arc u v xs \<noteq> []"
  by (subst hull_arc.simps) (simp add: Let_def)

definition last_arc :: "point list \<Rightarrow> point list" where
  "last_arc xs = hull_arc (lex_min xs) (lex_max xs) (tl (second_side xs))"

definition first_arc :: "point list \<Rightarrow> point list" where
  "first_arc xs = hull_arc (lex_max xs) (lex_min xs) (tl (first_side xs))"

definition edge_case :: "point list \<Rightarrow> bool" where
  "edge_case xs \<longleftrightarrow>
     tl (second_side xs) \<noteq> [] \<and>
     cross (pt_minus (lex_max xs) (lex_min xs)) (pt_minus (hd (last_arc xs)) (lex_min xs)) = 0"

definition hull_list :: "point list \<Rightarrow> point list" where
  "hull_list xs =
     lex_max xs # first_arc xs @ lex_min xs # (if edge_case xs then [] else last_arc xs)"

lemma quickHull_merge:
  assumes "quickHull_arcs ps first last' = Inr (ps5, pivot, left, right, lb, rb)"
    and "(if pivot + 1 \<noteq> last' then
             if length ps5 \<le> pivot + 1 then Inl OutOfRange
             else if cross (pt_minus right left) (pt_minus (ps5 ! (pivot + 1)) left) = 0
             then (if pivot + 2 = rb then Inr (rb - 1) else Inl AssertFailed)
             else Inr rb
          else Inr rb) = r"
  shows "quickHull ps first last' =
     (case r of Inl e \<Rightarrow> Inl e
      | Inr rb' \<Rightarrow> (case swap_ranges ps5 pivot rb' lb of
             Inl e \<Rightarrow> Inl e
           | Inr (ps6, boundary) \<Rightarrow> Inr (ps6, boundary - first)))"
  using assms by (simp add: quickHull_def)

lemma quickHull_spec:
  assumes "xs \<noteq> []" "arcs_ok xs"
  shows "(edge_case xs \<and> length (last_arc xs) \<noteq> 1 \<longrightarrow>
            quickHull (P @ xs @ Z) (length P) (length P + length xs) = Inl AssertFailed)
       \<and> (\<not> (edge_case xs \<and> length (last_arc xs) \<noteq> 1) \<longrightarrow>
            (\<exists>W. quickHull (P @ xs @ Z) (length P) (length P + length xs)
                    = Inr (P @ hull_list xs @ W @ Z, length (hull_list xs))
                \<and> mset (hull_list xs) + mset W = mset xs))"
proof -
  define L where "L = lex_min xs"
  define R where "R = lex_max xs"
  define S1 where "S1 = first_side xs"
  define S2 where "S2 = second_side xs"
  define h1 where "h1 = first_arc xs"
  define h2 where "h2 = last_arc xs"
  define pivot where "pivot = length P + length S1"
  define lb where "lb = Suc (length P + length h1)"
  define rb where "rb = Suc (pivot + length h2)"
  define last' where "last' = length P + length xs"
  from assms(2) obtain S1' S2' where c1: "S1 = R # S1'" and c2: "S2 = L # S2'"
    by (cases S1; cases S2) (auto simp: arcs_ok_def S1_def S2_def L_def R_def)
  from quickHull_arcs_spec[OF assms(1), of P Z] assms(2) obtain R1 R2 where
    arcs: "quickHull_arcs (P @ xs @ Z) (length P) last'
            = Inr (P @ R # h1 @ R1 @ L # h2 @ R2 @ Z, pivot, L, R, lb, rb)"
    and m1: "mset h1 + mset R1 = mset S1'" and m2: "mset h2 + mset R2 = mset S2'"
    unfolding L_def R_def S1_def[symmetric] S2_def[symmetric] h1_def h2_def first_arc_def last_arc_def
      pivot_def lb_def rb_def last'_def
    by (auto simp: c1 c2 L_def[symmetric] R_def[symmetric])
  define ps5 where "ps5 = P @ R # h1 @ R1 @ L # h2 @ R2 @ Z"
  have l1: "length h1 + length R1 = length S1'" using m1 by (metis size_mset size_union)
  have l2: "length h2 + length R2 = length S2'" using m2 by (metis size_mset size_union)
  have mx: "mset xs = mset S1 + mset S2"
    by (simp add: S1_def S2_def first_side_def second_side_def)
  have lx: "length xs = length S1 + length S2"
    using mx by (metis size_mset size_union)
  have pv: "pivot = length (P @ R # h1 @ R1)" using l1 by (simp add: pivot_def c1)
  have lst: "last' = Suc (pivot + length S2')" by (simp add: last'_def lx pivot_def c2)
  have h2e: "S2' \<noteq> [] \<Longrightarrow> h2 \<noteq> []"
    using hull_arc_nonempty[of S2' L R] c2
    by (simp add: h2_def last_arc_def S2_def[symmetric] L_def R_def)
  have h2n: "S2' = [] \<Longrightarrow> h2 = []"
    using c2 by (simp add: h2_def last_arc_def S2_def[symmetric])
  have nth1: "S2' \<noteq> [] \<Longrightarrow> ps5 ! (pivot + 1) = hd h2"
  proof -
    assume "S2' \<noteq> []"
    from h2e[OF this] obtain a h2' where "h2 = a # h2'" by (cases h2) auto
    then show ?thesis
      using nth_append_length[of "P @ R # h1 @ R1 @ [L]" a "h2' @ R2 @ Z"]
      by (simp add: ps5_def pv)
  qed
  have len5: "pivot + 1 \<noteq> last' \<Longrightarrow> \<not> length ps5 \<le> pivot + 1"
    using lst l2 by (cases S2') (auto simp: ps5_def pv)
  have ec: "edge_case xs \<longleftrightarrow> S2' \<noteq> [] \<and> cross (pt_minus R L) (pt_minus (hd h2) L) = 0"
    using c2 by (simp add: edge_case_def S2_def[symmetric] h2_def L_def R_def)
  have pl: "pivot + 1 \<noteq> last' \<longleftrightarrow> S2' \<noteq> []" by (simp add: lst)
  have rb2: "pivot + 2 = rb \<longleftrightarrow> length h2 = 1" by (auto simp: rb_def)
  have fx: "(if pivot + 1 \<noteq> last' then
             if length ps5 \<le> pivot + 1 then Inl OutOfRange
             else if cross (pt_minus R L) (pt_minus (ps5 ! (pivot + 1)) L) = 0
             then (if pivot + 2 = rb then Inr (rb - 1) else Inl AssertFailed)
             else Inr rb
          else Inr rb)
        = (if edge_case xs then (if length h2 = 1 then Inr (pivot + 1) else Inl AssertFailed)
           else Inr rb)"
  proof (cases "S2' = []")
    case True
    then have "pivot + 1 = last'" "\<not> edge_case xs" by (simp_all add: lst ec)
    then show ?thesis by simp
  next
    case False
    then have "pivot + 1 \<noteq> last'" by (simp add: lst)
    with len5 nth1[OF False] False rb2 show ?thesis by (simp add: ec rb_def)
  qed
  note merge = quickHull_merge[OF arcs[folded ps5_def] fx]
  show ?thesis
  proof (intro conjI impI)
    assume "edge_case xs \<and> length (last_arc xs) \<noteq> 1"
    then show "quickHull (P @ xs @ Z) (length P) (length P + length xs) = Inl AssertFailed"
      using merge by (simp add: h2_def last'_def)
  next
    assume a: "\<not> (edge_case xs \<and> length (last_arc xs) \<noteq> 1)"
    define low where "low = (if edge_case xs then [] else h2)"
    define rest where "rest = (if edge_case xs then h2 else [])"
    define rb' where "rb' = Suc (pivot + length low)"
    have h2s: "h2 = low @ rest" by (simp add: low_def rest_def)
    have r: "(if edge_case xs then (if length h2 = 1 then Inr (pivot + 1) else Inl AssertFailed)
           else Inr rb) = Inr rb'"
      using a by (auto simp: rb'_def low_def rb_def h2_def)
    from swap_ranges_spec[of "P @ R # h1" R1 "L # low" "rest @ R2 @ Z"] obtain M' where
      sw: "swap_ranges ((P @ R # h1) @ R1 @ (L # low) @ rest @ R2 @ Z)
             (length (P @ R # h1) + length R1)
             (length (P @ R # h1) + length R1 + length (L # low)) (length (P @ R # h1))
           = Inr ((P @ R # h1) @ (L # low) @ M' @ rest @ R2 @ Z, length (P @ R # h1) + length (L # low))"
      and m3: "mset M' = mset R1" by blast
    have sw': "swap_ranges ps5 pivot rb' lb
           = Inr (P @ (R # h1 @ L # low) @ (M' @ rest @ R2) @ Z, length P + length (R # h1 @ L # low))"
      using sw by (simp add: ps5_def h2s pv rb'_def lb_def add.assoc)
    have hl: "hull_list xs = R # h1 @ L # low"
      by (simp add: hull_list_def R_def L_def h1_def low_def h2_def)
    have q: "quickHull (P @ xs @ Z) (length P) (length P + length xs)
              = Inr (P @ hull_list xs @ (M' @ rest @ R2) @ Z, length (hull_list xs))"
      using merge r sw' by (simp add: last'_def hl)
    have "mset (hull_list xs) + mset (M' @ rest @ R2) = mset xs"
      using m1[symmetric] m2[symmetric] m3 by (simp add: hl mx c1 c2 h2s)
    with q show "\<exists>W. quickHull (P @ xs @ Z) (length P) (length P + length xs)
                    = Inr (P @ hull_list xs @ W @ Z, length (hull_list xs))
                \<and> mset (hull_list xs) + mset W = mset xs" by blast
  qed
qed

lemma quickHull_Inr_shape:
  assumes "quickHull ps first last' = Inr (ps', k)"
  shows "\<exists>P xs Z W. ps = P @ xs @ Z \<and> first = length P \<and> last' = length P + length xs
           \<and> xs \<noteq> [] \<and> arcs_ok xs \<and> \<not> (edge_case xs \<and> length (last_arc xs) \<noteq> 1)
           \<and> ps' = P @ hull_list xs @ W @ Z \<and> k = length (hull_list xs)
           \<and> mset (hull_list xs) + mset W = mset xs"
proof -
  have arcs: "\<not> (\<exists>e. quickHull_arcs ps first last' = Inl e)"
    using assms by (auto simp: quickHull_def)
  with quickHull_arcs_invalid[of first last' ps] have valid: "first \<le> last'" "last' \<le> length ps"
    by auto
  from arcs quickHull_arcs_empty[of ps first] have ne: "first \<noteq> last'" by auto
  define P where "P = take first ps"
  define xs where "xs = range_of ps first last'"
  define Z where "Z = drop last' ps"
  from range_split[OF valid] have ps: "ps = P @ xs @ Z" and lP: "length P = first"
    and lxs: "length xs = last' - first"
    by (simp_all add: P_def xs_def Z_def)
  have xne: "xs \<noteq> []" using lxs ne valid by auto
  have fl: "first = length P" "last' = length P + length xs" using lP lxs valid by auto
  from quickHull_arcs_spec[OF xne, of P Z] arcs have ok: "arcs_ok xs"
    unfolding ps fl by blast
  from quickHull_spec[OF xne ok, of P Z] assms
  have nfail: "\<not> (edge_case xs \<and> length (last_arc xs) \<noteq> 1)"
    unfolding ps fl by auto
  with quickHull_spec[OF xne ok, of P Z] assms obtain W where
    "ps' = P @ hull_list xs @ W @ Z" "k = length (hull_list xs)"
    "mset (hull_list xs) + mset W = mset xs"
    unfolding ps fl by auto
  with ps fl xne ok nfail show ?thesis by blast
qed

text \<open>
  C3 (amended). Whenever \<open>quickHull\<close> returns a hull count \<open>k\<close> for the range
  \<open>[first, last')\<close>, the range is non-empty and inside the buffer, the buffer outside the
  range is unchanged, the range holds a permutation of its input points, and
  \<open>k \<le> last' - first\<close>. So the positions after the hull prefix hold exactly the input
  points that are not in the prefix. (\<open>grahamScan\<close> is left out: see
  \<open>grahamScan_overwrites\<close>.)
\<close>

theorem quickHull_permutes:
  assumes "quickHull ps first last' = Inr (ps', k)"
  shows "first < last' \<and> last' \<le> length ps \<and> length ps' = length ps
       \<and> take first ps' = take first ps \<and> drop last' ps' = drop last' ps
       \<and> mset (range_of ps' first last') = mset (range_of ps first last')
       \<and> k \<le> last' - first"
proof -
  from quickHull_Inr_shape[OF assms] obtain P xs Z W where
    ps: "ps = P @ xs @ Z" and f: "first = length P" and l: "last' = length P + length xs"
    and ne: "xs \<noteq> []" and ps': "ps' = P @ hull_list xs @ W @ Z" and k: "k = length (hull_list xs)"
    and m: "mset (hull_list xs) + mset W = mset xs"
    by blast
  have len: "length (hull_list xs) + length W = length xs"
    using m by (metis size_mset size_union)
  have r1: "range_of ps first last' = xs"
    using range_of_append_mid[of P xs Z] by (simp add: ps f l)
  have r2: "range_of ps' first last' = hull_list xs @ W"
    using range_of_append_mid[of P "hull_list xs @ W" Z] len by (simp add: ps' f l)
  have "first < last'" using ne by (simp add: f l)
  moreover have "last' \<le> length ps" by (simp add: ps l)
  moreover have "length ps' = length ps" using len by (simp add: ps ps')
  moreover have "take first ps' = take first ps" by (simp add: ps ps' f)
  moreover have "drop last' ps' = drop last' ps" using len by (simp add: ps ps' l)
  moreover have "mset (range_of ps' first last') = mset (range_of ps first last')"
    using m by (simp add: r1 r2)
  moreover have "k \<le> last' - first" using len by (simp add: k f l)
  ultimately show ?thesis by blast
qed

theorem quickHull_permutes_witness:
  "quickHull [\<lparr>px = 0, py = 0\<rparr>, \<lparr>px = 0, py = 1\<rparr>, \<lparr>px = 1, py = 1\<rparr>, \<lparr>px = 1, py = 0\<rparr>, \<lparr>px = 0, py = 1/2\<rparr>] 0 5
     = Inr ([\<lparr>px = 1, py = 1\<rparr>, \<lparr>px = 0, py = 1\<rparr>, \<lparr>px = 0, py = 0\<rparr>, \<lparr>px = 1, py = 0\<rparr>, \<lparr>px = 0, py = 1/2\<rparr>], 4)
   \<and> mset (range_of [\<lparr>px = 1, py = 1\<rparr>, \<lparr>px = 0, py = 1\<rparr>, \<lparr>px = 0, py = 0\<rparr>, \<lparr>px = 1, py = 0\<rparr>, \<lparr>px = 0, py = 1/2\<rparr>] 0 5)
     = mset (range_of [\<lparr>px = 0, py = 0\<rparr>, \<lparr>px = 0, py = 1\<rparr>, \<lparr>px = 1, py = 1\<rparr>, \<lparr>px = 1, py = 0\<rparr>, \<lparr>px = 0, py = 1/2\<rparr>] 0 5)"
proof -
  have run: "quickHull [\<lparr>px = 0, py = 0\<rparr>, \<lparr>px = 0, py = 1\<rparr>, \<lparr>px = 1, py = 1\<rparr>, \<lparr>px = 1, py = 0\<rparr>, \<lparr>px = 0, py = 1/2\<rparr>] 0 5
     = Inr ([\<lparr>px = 1, py = 1\<rparr>, \<lparr>px = 0, py = 1\<rparr>, \<lparr>px = 0, py = 0\<rparr>, \<lparr>px = 1, py = 0\<rparr>, \<lparr>px = 0, py = 1/2\<rparr>], 4)"
    by code_simp
  from quickHull_permutes[OF run] run show ?thesis by blast
qed

text \<open>
  C3 as stated fails for \<open>grahamScan\<close>: its compaction step \<open>ps[m++] = u\<close> overwrites the
  points it drops. On \<open>(0,0), (1,1), (2,2), (1,0)\<close> the point \<open>(1,1)\<close> is lost and
  \<open>(2,2)\<close> is in the buffer twice.
\<close>

theorem grahamScan_overwrites:
  "grahamScan [\<lparr>px = 0, py = 0\<rparr>, \<lparr>px = 1, py = 1\<rparr>, \<lparr>px = 2, py = 2\<rparr>, \<lparr>px = 1, py = 0\<rparr>] 4
      = Inr ([\<lparr>px = 0, py = 0\<rparr>, \<lparr>px = 1, py = 0\<rparr>, \<lparr>px = 2, py = 2\<rparr>, \<lparr>px = 2, py = 2\<rparr>], 3)
   \<and> mset [\<lparr>px = 0, py = 0\<rparr>, \<lparr>px = 1, py = 0\<rparr>, \<lparr>px = 2, py = 2\<rparr>, \<lparr>px = 2, py = 2 :: real\<rparr>]
     \<noteq> mset [\<lparr>px = 0, py = 0\<rparr>, \<lparr>px = 1, py = 1\<rparr>, \<lparr>px = 2, py = 2\<rparr>, \<lparr>px = 1, py = 0\<rparr>]"
proof -
  have "grahamScan [\<lparr>px = 0, py = 0\<rparr>, \<lparr>px = 1, py = 1\<rparr>, \<lparr>px = 2, py = 2\<rparr>, \<lparr>px = 1, py = 0\<rparr>] 4
      = Inr ([\<lparr>px = 0, py = 0\<rparr>, \<lparr>px = 1, py = 0\<rparr>, \<lparr>px = 2, py = 2\<rparr>, \<lparr>px = 2, py = 2\<rparr>], 3)"
    by code_simp
  moreover have "count (mset [\<lparr>px = 0, py = 0\<rparr>, \<lparr>px = 1, py = 0\<rparr>, \<lparr>px = 2, py = 2\<rparr>, \<lparr>px = 2, py = 2 :: real\<rparr>]) \<lparr>px = 1, py = 1\<rparr>
     \<noteq> count (mset [\<lparr>px = 0, py = 0\<rparr>, \<lparr>px = 1, py = 1\<rparr>, \<lparr>px = 2, py = 2\<rparr>, \<lparr>px = 1, py = 0\<rparr>]) \<lparr>px = 1, py = 1\<rparr>"
    by simp
  then have "mset [\<lparr>px = 0, py = 0\<rparr>, \<lparr>px = 1, py = 0\<rparr>, \<lparr>px = 2, py = 2\<rparr>, \<lparr>px = 2, py = 2 :: real\<rparr>]
     \<noteq> mset [\<lparr>px = 0, py = 0\<rparr>, \<lparr>px = 1, py = 1\<rparr>, \<lparr>px = 2, py = 2\<rparr>, \<lparr>px = 1, py = 0\<rparr>]"
    by metis
  ultimately show ?thesis by blast
qed

subsection \<open>Extreme points and the shape of an arc\<close>














subsection \<open>Collinear points of the second side\<close>









section \<open>Graham scan at the level of lists\<close>









lemma pt_plus_minus [simp]: "pt_plus a (pt_minus b a) = b"
  by (simp add: pt_plus_def pt_minus_def)














subsection \<open>Sorted by angle, strictly increasing after the compaction\<close>



lemma insort_by_nonempty [simp]: "insort_by lt a xs \<noteq> []"
  by (cases xs) auto




text \<open>The translated points lie in the half-plane of the points that are not
  lexicographically below the origin.\<close>

definition origin :: point where
  "origin = \<lparr>px = 0, py = 0\<rparr>"

lemma pt_minus_self [simp]: "pt_minus p p = origin"
  by (simp add: pt_minus_def origin_def)

lemma pt_minus_origin [simp]: "pt_minus p origin = p"
  by (simp add: pt_minus_def origin_def)














section \<open>Running the engines again on their own result\<close>

text \<open>
  The stack that \<open>grahamScan\<close> leaves behind makes strict left turns only, and it is a
  subsequence of the compacted, angle-sorted points. A second sweep over such a chain pops
  nothing.
\<close>










lemma pt_minus_plus [simp]: "pt_minus (pt_plus p m) m = p"
  by (simp add: pt_plus_def pt_minus_def)


lemma pt_less_plus [simp]: "pt_less (pt_plus p m) (pt_plus q m) \<longleftrightarrow> pt_less p q"
  by (auto simp: pt_less_def pt_plus_def)





lemma pt_minus_plus_cancel [simp]: "pt_plus (pt_minus b m) m = b"
  by (simp add: pt_plus_def pt_minus_def)









end
